theory Spec2Isabelle
  imports Main
begin

section \<open>Strings as Python sees them\<close>

text \<open>
  The documentation generator \<^verbatim>\<open>generate_docs.py\<close> works on Python \<^verbatim>\<open>str\<close> values.
  They are modelled as \<^typ>\<open>string\<close>, each character read as one code point in the range
  U+0000 to U+00FF. The string methods of the Python standard library that the program
  calls are written out below for that range.
\<close>

abbreviation (input) NL :: char where "NL \<equiv> CHR 0x0A"
abbreviation (input) CR :: char where "CR \<equiv> CHR 0x0D"

text \<open>\<^verbatim>\<open>str.isspace\<close> on one character: the characters \<^verbatim>\<open>str.strip()\<close> removes.\<close>

definition is_space :: "char \<Rightarrow> bool" where
  "is_space c = (c \<in> set [CHR 0x09, CHR 0x0A, CHR 0x0B, CHR 0x0C, CHR 0x0D,
                            CHR 0x1C, CHR 0x1D, CHR 0x1E, CHR 0x1F, CHR 0x20,
                            CHR 0x85, CHR 0xA0])"

definition lstrip :: "string \<Rightarrow> string" where
  "lstrip s = dropWhile is_space s"

definition rstrip :: "string \<Rightarrow> string" where
  "rstrip s = rev (dropWhile is_space (rev s))"

text \<open>\<^verbatim>\<open>s.strip()\<close>\<close>

definition strip :: "string \<Rightarrow> string" where
  "strip s = rstrip (lstrip s)"

text \<open>\<^verbatim>\<open>s.startswith(p)\<close> and \<^verbatim>\<open>s.endswith(p)\<close>\<close>

definition startswith :: "string \<Rightarrow> string \<Rightarrow> bool" where
  "startswith s p = (take (length p) s = p)"

definition endswith :: "string \<Rightarrow> string \<Rightarrow> bool" where
  "endswith s p = (length p \<le> length s \<and> drop (length s - length p) s = p)"

text \<open>\<^verbatim>\<open>sep.join(xs)\<close>\<close>

fun join :: "string \<Rightarrow> string list \<Rightarrow> string" where
  "join sep [] = []"
| "join sep [x] = x"
| "join sep (x # y # ys) = x @ sep @ join sep (y # ys)"

text \<open>
  \<^verbatim>\<open>s.lower()\<close>: in the modelled range the upper-case letters are A to Z and
  U+00C0 to U+00DE without the multiplication sign U+00D7; each is 32 below its
  lower-case form.
\<close>

definition lower_char :: "char \<Rightarrow> char" where
  "lower_char c =
     (let n = (of_char c :: nat)
      in if (65 \<le> n \<and> n \<le> 90) \<or> (192 \<le> n \<and> n \<le> 222 \<and> n \<noteq> 215)
         then char_of (n + 32) else c)"

definition lower :: "string \<Rightarrow> string" where
  "lower s = map lower_char s"

text \<open>
  \<^verbatim>\<open>s.splitlines()\<close>: a line ends at \<^verbatim>\<open>\n\<close>, \<^verbatim>\<open>\r\<close>, \<^verbatim>\<open>\r\n\<close>, \<^verbatim>\<open>\x0b\<close>, \<^verbatim>\<open>\x0c\<close>,
  \<^verbatim>\<open>\x1c\<close>, \<^verbatim>\<open>\x1d\<close>, \<^verbatim>\<open>\x1e\<close> or \<^verbatim>\<open>\x85\<close>; the line ends are dropped, and text
  after the last line end is a line only when it is not empty. The first argument
  holds the characters of the current line, latest first.
\<close>

definition is_linebreak :: "char \<Rightarrow> bool" where
  "is_linebreak c = (c \<in> set [CHR 0x0A, CHR 0x0D, CHR 0x0B, CHR 0x0C,
                                CHR 0x1C, CHR 0x1D, CHR 0x1E, CHR 0x85])"

fun splitlines_from :: "string \<Rightarrow> string \<Rightarrow> string list" where
  "splitlines_from cur [] = (if cur = [] then [] else [rev cur])"
| "splitlines_from cur (c # cs) =
     (if c = CR \<and> cs \<noteq> [] \<and> hd cs = NL then rev cur # splitlines_from [] (tl cs)
      else if is_linebreak c then rev cur # splitlines_from [] cs
      else splitlines_from (c # cur) cs)"

definition splitlines :: "string \<Rightarrow> string list" where
  "splitlines s = splitlines_from [] s"

section \<open>The generic comment extractor\<close>

text \<open>
  \<^verbatim>\<open>cblock_re = re.compile(r"/\*(.*?)\*/", re.DOTALL)\<close>

  \<open>find_close s\<close> is the lazy \<^verbatim>\<open>(.*?)\*/\<close> tried at the head of \<open>s\<close>: the shortest
  prefix of \<open>s\<close> that is followed by \<^verbatim>\<open>*/\<close>, with the text after that \<^verbatim>\<open>*/\<close>;
  \<open>None\<close> when \<open>s\<close> has no \<^verbatim>\<open>*/\<close>.
\<close>

fun find_close :: "string \<Rightarrow> (string \<times> string) option" where
  "find_close [] = None"
| "find_close [c] = None"
| "find_close (c # d # cs) =
     (if c = CHR ''*'' \<and> d = CHR ''/'' then Some ([], cs)
      else (case find_close (d # cs) of
              None \<Rightarrow> None
            | Some (g, r) \<Rightarrow> Some (c # g, r)))"

text \<open>The pattern tried at the head of \<open>s\<close>: group 1 and the text after the match.\<close>

definition cblock_match :: "string \<Rightarrow> (string \<times> string) option" where
  "cblock_match s =
     (case s of
        c # d # r \<Rightarrow> (if c = CHR ''/'' \<and> d = CHR ''*'' then find_close r else None)
      | _ \<Rightarrow> None)"

lemma find_close_shorter: "find_close s = Some (g, r) \<Longrightarrow> length r < length s"
  by (induction s arbitrary: g r rule: find_close.induct)
     (auto split: if_splits option.splits)

lemma cblock_match_shorter: "cblock_match s = Some (g, r) \<Longrightarrow> length r < length s"
  by (auto simp: cblock_match_def split: list.splits if_splits dest: find_close_shorter)

text \<open>
  \<^verbatim>\<open>cblock_re.finditer(content)\<close>, as the list of the matches' group 1: the matches
  do not overlap, are found from left to right, and the search goes on behind each.
\<close>

function cblock_finditer :: "string \<Rightarrow> string list" where
  "cblock_finditer [] = []"
| "cblock_finditer (c # cs) =
     (case cblock_match (c # cs) of
        Some (g, r) \<Rightarrow> g # cblock_finditer r
      | None \<Rightarrow> cblock_finditer cs)"
  by pat_completeness auto
termination
  by (relation "measure length") (auto dest: cblock_match_shorter)

type_synonym item = "string \<times> string"

text \<open>
  The first loop of \<^verbatim>\<open>parse_generic_comments\<close>, over the matches, appending to
  \<open>items\<close>:
  \<^verbatim>\<open>
    for m in cblock_re.finditer(content):
        snippet = m.group(1).strip()
        if snippet:
            items.append(("comment_block", snippet))
  \<close>
\<close>

fun block_loop :: "item list \<Rightarrow> string list \<Rightarrow> item list" where
  "block_loop items [] = items"
| "block_loop items (g # gs) =
     (let snippet = strip g
      in if snippet \<noteq> [] then block_loop (items @ [(''comment_block'', snippet)]) gs
         else block_loop items gs)"

text \<open>
  The second loop, over the lines, with the state \<open>(items, buff)\<close>:
  \<^verbatim>\<open>
    for ln in lines:
        stripped = ln.strip()
        if stripped.startswith("//"):
            buff.append(stripped[2:].strip())
        elif stripped.startswith("#"):
            buff.append(stripped[1:].strip())
        else:
            if buff:
                items.append(("comment_block", "\n".join(buff).strip()))
                buff = []
  \<close>
\<close>

fun line_loop :: "item list \<times> string list \<Rightarrow> string list \<Rightarrow> item list \<times> string list" where
  "line_loop (items, buff) [] = (items, buff)"
| "line_loop (items, buff) (ln # lns) =
     (let stripped = strip ln
      in if startswith stripped ''//'' then line_loop (items, buff @ [strip (drop 2 stripped)]) lns
         else if startswith stripped ''#'' then line_loop (items, buff @ [strip (drop 1 stripped)]) lns
         else if buff \<noteq> [] then line_loop (items @ [(''comment_block'', strip (join [NL] buff))], []) lns
         else line_loop (items, buff) lns)"

text \<open>
  \<^verbatim>\<open>parse_generic_comments(content)\<close>: the two loops one after the other on the same
  \<open>items\<close>, then the last flush:
  \<^verbatim>\<open>
    if buff:
        items.append(("comment_block", "\n".join(buff).strip()))
    return items
  \<close>
\<close>

definition parse_generic_comments :: "string \<Rightarrow> item list" where
  "parse_generic_comments content =
     (let items = block_loop [] (cblock_finditer content);
          (items, buff) = line_loop (items, []) (splitlines content)
      in if buff \<noteq> [] then items @ [(''comment_block'', strip (join [NL] buff))]
         else items)"


section \<open>The structured Python extractor\<close>

text \<open>
  \<^verbatim>\<open>parse_python\<close> reads the tree that \<^verbatim>\<open>ast.parse\<close> returns. Of a tree it reads only
  what is kept here: the statements of a body in their order, the kind of a statement
  (\<^verbatim>\<open>ast.FunctionDef\<close>, \<^verbatim>\<open>ast.AsyncFunctionDef\<close>, \<^verbatim>\<open>ast.ClassDef\<close>, \<^verbatim>\<open>ast.Expr\<close>, any
  other), the name and the body of a definition, and whether the value of an expression
  statement is a string constant. A statement of any other kind keeps the statements
  nested in it.
\<close>

datatype expr = Constant_str string | Other_expr

datatype stmt =
    FunctionDef string "stmt list"
  | AsyncFunctionDef string "stmt list"
  | ClassDef string "stmt list"
  | Expr expr
  | Other_stmt "stmt list"

datatype py_module = Module "stmt list"

text \<open>
  \<^verbatim>\<open>ast.get_docstring(node)\<close>, on \<^verbatim>\<open>node.body\<close>: when the first statement is an
  expression statement whose value is a string constant, that string cleaned by
  \<^verbatim>\<open>inspect.cleandoc\<close>, else \<^verbatim>\<open>None\<close>. The cleaning function is the parameter
  \<open>cleandoc\<close>.
\<close>

fun get_docstring :: "(string \<Rightarrow> string) \<Rightarrow> stmt list \<Rightarrow> string option" where
  "get_docstring cleandoc (Expr (Constant_str text) # rest) = Some (cleandoc text)"
| "get_docstring cleandoc body = None"

text \<open>\<^verbatim>\<open>ast.get_docstring(node) or ""\<close>\<close>

definition docstring_or_empty :: "(string \<Rightarrow> string) \<Rightarrow> stmt list \<Rightarrow> string" where
  "docstring_or_empty cleandoc body =
     (case get_docstring cleandoc body of None \<Rightarrow> [] | Some d \<Rightarrow> d)"

text \<open>
  The loop over the body of a class, appending to \<open>methods\<close>:
  \<^verbatim>\<open>
    for elt in node.body:
        if isinstance(elt, (ast.FunctionDef, ast.AsyncFunctionDef)):
            mname = elt.name
            mdoc = ast.get_docstring(elt) or ""
            methods.append((mname, mdoc.strip()))
  \<close>
\<close>

fun methods_loop ::
  "(string \<Rightarrow> string) \<Rightarrow> (string \<times> string) list \<Rightarrow> stmt list \<Rightarrow> (string \<times> string) list" where
  "methods_loop cleandoc methods [] = methods"
| "methods_loop cleandoc methods (FunctionDef mname b # elts) =
     methods_loop cleandoc (methods @ [(mname, strip (docstring_or_empty cleandoc b))]) elts"
| "methods_loop cleandoc methods (AsyncFunctionDef mname b # elts) =
     methods_loop cleandoc (methods @ [(mname, strip (docstring_or_empty cleandoc b))]) elts"
| "methods_loop cleandoc methods (elt # elts) = methods_loop cleandoc methods elts"

text \<open>
  The loop over the methods, appending to \<open>body_lines\<close>:
  \<^verbatim>\<open>
    for mname, mdoc in methods:
        body_lines += f"- {mname}(): {mdoc or '(no doc)'}\n"
  \<close>
\<close>

fun method_lines_loop :: "string \<Rightarrow> (string \<times> string) list \<Rightarrow> string" where
  "method_lines_loop body_lines [] = body_lines"
| "method_lines_loop body_lines ((mname, mdoc) # ms) =
     method_lines_loop
       (body_lines @ ''- '' @ mname @ ''(): '' @ (if mdoc \<noteq> [] then mdoc else ''(no doc)'') @ [NL])
       ms"

text \<open>The item of one class (the \<^verbatim>\<open>ast.ClassDef\<close> branch).\<close>

definition class_item :: "(string \<Rightarrow> string) \<Rightarrow> string \<Rightarrow> stmt list \<Rightarrow> item" where
  "class_item cleandoc name body =
     (let doc = docstring_or_empty cleandoc body;
          methods = methods_loop cleandoc [] body;
          body_lines = strip doc;
          body_lines = (if methods \<noteq> []
                        then method_lines_loop (body_lines @ ''\<newline>\<newline>Methods:\<newline>'') methods
                        else body_lines)
      in (''class '' @ name,
          if strip body_lines \<noteq> [] then strip body_lines else ''(no doc)''))"

text \<open>The loop \<^verbatim>\<open>for node in module.body\<close>, appending to \<open>items\<close>.\<close>

fun body_loop :: "(string \<Rightarrow> string) \<Rightarrow> item list \<Rightarrow> stmt list \<Rightarrow> item list" where
  "body_loop cleandoc items [] = items"
| "body_loop cleandoc items (FunctionDef name b # nodes) =
     body_loop cleandoc
       (items @ [(''def '' @ name @ ''()'', strip (docstring_or_empty cleandoc b))]) nodes"
| "body_loop cleandoc items (AsyncFunctionDef name b # nodes) =
     body_loop cleandoc
       (items @ [(''async def '' @ name @ ''()'', strip (docstring_or_empty cleandoc b))]) nodes"
| "body_loop cleandoc items (ClassDef name b # nodes) =
     body_loop cleandoc (items @ [class_item cleandoc name b]) nodes"
| "body_loop cleandoc items (node # nodes) = body_loop cleandoc items nodes"

text \<open>
  \<^verbatim>\<open>parse_python\<close> behind the \<^verbatim>\<open>try\<close>, on the parsed module:
  \<^verbatim>\<open>
    module_doc = ast.get_docstring(module)
    if module_doc:
        items.append(("module", module_doc.strip()))
    for node in module.body: ...
    return items
  \<close>
\<close>

fun parse_module :: "(string \<Rightarrow> string) \<Rightarrow> py_module \<Rightarrow> item list" where
  "parse_module cleandoc (Module body) =
     (let items = (case get_docstring cleandoc body of
                     None \<Rightarrow> []
                   | Some module_doc \<Rightarrow>
                       if module_doc \<noteq> [] then [(''module'', strip module_doc)] else [])
      in body_loop cleandoc items body)"

text \<open>
  \<^verbatim>\<open>parse_python(content)\<close>. \<open>ast_parse\<close> stands for \<^verbatim>\<open>ast.parse\<close>: \<open>None\<close> where it raises
  an exception, else the module.
  \<^verbatim>\<open>
    try:
        module = ast.parse(content)
    except Exception:
        return parse_generic_comments(content)
  \<close>
\<close>

definition parse_python ::
  "(string \<Rightarrow> py_module option) \<Rightarrow> (string \<Rightarrow> string) \<Rightarrow> string \<Rightarrow> item list" where
  "parse_python ast_parse cleandoc content =
     (case ast_parse content of
        None \<Rightarrow> parse_generic_comments content
      | Some module \<Rightarrow> parse_module cleandoc module)"

subsection \<open>The standard library's docstring cleaner\<close>

text \<open>
  \<^verbatim>\<open>inspect.cleandoc\<close> as CPython 3.13 has it, for the examples: tabs are expanded to
  columns of eight, the text is split at \<^verbatim>\<open>\n\<close>, the first line loses its leading
  blanks, the later lines lose the smallest indentation found among those of them that
  hold more than blanks, and empty lines at the end and at the start are dropped.
\<close>

fun expandtabs_from :: "nat \<Rightarrow> string \<Rightarrow> string" where
  "expandtabs_from col [] = []"
| "expandtabs_from col (c # cs) =
     (if c = CHR 0x09 then replicate (8 - col mod 8) CHR '' '' @ expandtabs_from 0 cs
      else if c = NL \<or> c = CR then c # expandtabs_from 0 cs
      else c # expandtabs_from (Suc col) cs)"

fun split_newline_from :: "string \<Rightarrow> string \<Rightarrow> string list" where
  "split_newline_from cur [] = [rev cur]"
| "split_newline_from cur (c # cs) =
     (if c = NL then rev cur # split_newline_from [] cs else split_newline_from (c # cur) cs)"

definition indent_of :: "string \<Rightarrow> nat" where
  "indent_of line = length (takeWhile (\<lambda>c. c = CHR '' '') line)"

definition inspect_cleandoc :: "string \<Rightarrow> string" where
  "inspect_cleandoc doc =
     (case split_newline_from [] (expandtabs_from 0 doc) of
        [] \<Rightarrow> []
      | first # later \<Rightarrow>
          (let indents = map indent_of (filter (\<lambda>l. indent_of l < length l) later);
               later = (if indents = [] then later else map (drop (Min (set indents))) later);
               lines = dropWhile (\<lambda>l. l = []) (dropWhile (\<lambda>c. c = CHR '' '') first # later);
               lines = rev (dropWhile (\<lambda>l. l = []) (rev lines))
           in join [NL] lines))"

section \<open>The graph\<close>

text \<open>
  \<^verbatim>\<open>class Node\<close>: \<^verbatim>\<open>j_type\<close>, the keyword arguments \<^verbatim>\<open>props\<close> as the list of their
  (name, value) pairs, and \<^verbatim>\<open>id\<close>. \<^verbatim>\<open>class Edge\<close>: \<^verbatim>\<open>j_type\<close> and the two nodes it
  refers to. \<^verbatim>\<open>class GraphSimple\<close>: the two lists. Nodes are never changed once made,
  so an edge holds its nodes by value; which object a node is, is told by its id.
\<close>

record Node =
  j_type :: string
  props :: "(string \<times> string) list"
  node_id :: nat

record Edge =
  edge_j_type :: string
  source :: Node
  dest :: Node

record GraphSimple =
  nodes :: "Node list"
  edges :: "Edge list"

text \<open>
  \<^verbatim>\<open>Node.__init__\<close> stores \<^verbatim>\<open>id(self)\<close>, the address of the new object. The program
  makes nodes only in \<^verbatim>\<open>add_node\<close> of its one graph and none of them is ever dropped, so
  the node made when the graph holds \<open>k\<close> nodes gets an address of its own, \<open>ident k\<close>.
  Which addresses these are is left open: \<open>ident\<close> is a parameter, and injective.
\<close>

definition add_node ::
  "(nat \<Rightarrow> nat) \<Rightarrow> GraphSimple \<Rightarrow> string \<Rightarrow> (string \<times> string) list \<Rightarrow> GraphSimple \<times> Node" where
  "add_node ident g t ps =
     (let n = \<lparr>j_type = t, props = ps, node_id = ident (length (nodes g))\<rparr>
      in (g\<lparr>nodes := nodes g @ [n]\<rparr>, n))"

definition add_edge :: "GraphSimple \<Rightarrow> string \<Rightarrow> Node \<Rightarrow> Node \<Rightarrow> GraphSimple \<times> Edge" where
  "add_edge g t src dst =
     (let e = \<lparr>edge_j_type = t, source = src, dest = dst\<rparr>
      in (g\<lparr>edges := edges g @ [e]\<rparr>, e))"

definition find_nodes :: "GraphSimple \<Rightarrow> string \<Rightarrow> Node list" where
  "find_nodes g t = filter (\<lambda>n. j_type n = t) (nodes g)"

section \<open>Paths\<close>

text \<open>
  A \<^verbatim>\<open>pathlib.Path\<close> is modelled by its string, with \<^verbatim>\<open>/\<close> between the components.
  \<^verbatim>\<open>Path(root) / fn\<close> for a directory \<^verbatim>\<open>root\<close> and an entry \<^verbatim>\<open>fn\<close> of it:
\<close>

definition path_join :: "string \<Rightarrow> string \<Rightarrow> string" where
  "path_join root fn = root @ ''/'' @ fn"

text \<open>\<^verbatim>\<open>Path(p).name\<close>, the last component.\<close>

definition path_name :: "string \<Rightarrow> string" where
  "path_name p = rev (takeWhile (\<lambda>c. c \<noteq> CHR ''/'') (rev p))"

text \<open>\<^verbatim>\<open>s.rfind(c)\<close>: the index of the last \<open>c\<close> in \<open>s\<close>, or \<open>-1\<close>.\<close>

definition rfind :: "string \<Rightarrow> char \<Rightarrow> int" where
  "rfind s c =
     (if c \<in> set s then int (length s) - 1 - int (length (takeWhile (\<lambda>x. x \<noteq> c) (rev s)))
      else - 1)"

text \<open>
  \<^verbatim>\<open>Path(p).suffix\<close>, as \<^verbatim>\<open>pathlib\<close> computes it (CPython up to 3.13):
  \<^verbatim>\<open>
    name = self.name
    i = name.rfind('.')
    if 0 < i < len(name) - 1:
        return name[i:]
    else:
        return ''
  \<close>
\<close>

definition path_suffix :: "string \<Rightarrow> string" where
  "path_suffix p =
     (let name = path_name p; i = rfind name CHR ''.''
      in if 0 < i \<and> i < int (length name) - 1 then drop (nat i) name else [])"

section \<open>The orchestrator\<close>

text \<open>
  What \<^verbatim>\<open>main\<close> takes from outside is a parameter of the model:
  \<^item> \<open>walk\<close>, the list of the pairs \<^verbatim>\<open>(root, files)\<close> that \<^verbatim>\<open>os.walk(SRC_DIR)\<close> yields, in
    its order;
  \<^item> \<open>read_text\<close>, from a path to the text \<^verbatim>\<open>path.read_text(encoding="utf-8",
    errors="ignore")\<close> returns;
  \<^item> \<open>ast_parse\<close> and \<open>cleandoc\<close>, as above, and \<open>ident\<close>.

  The optional Jaseci runtime is left out: the program hands it copies of the data and
  catches whatever it raises, and neither the graph nor the files written depend on it.
  Messages printed are left out as well.

  The walk (\<^verbatim>\<open>fn.lower().endswith((".py", ".js", ".java", ".ts", ".cpp", ".c", ".h"))\<close>):
\<close>

definition extensions :: "string list" where
  "extensions = [''.py'', ''.js'', ''.java'', ''.ts'', ''.cpp'', ''.c'', ''.h'']"

definition enumerated :: "string \<Rightarrow> bool" where
  "enumerated fn = list_ex (endswith (lower fn)) extensions"

fun files_loop :: "string list \<Rightarrow> string \<Rightarrow> string list \<Rightarrow> string list" where
  "files_loop file_paths root [] = file_paths"
| "files_loop file_paths root (fn # fns) =
     (if enumerated fn then files_loop (file_paths @ [path_join root fn]) root fns
      else files_loop file_paths root fns)"

fun walk_loop :: "string list \<Rightarrow> (string \<times> string list) list \<Rightarrow> string list" where
  "walk_loop file_paths [] = file_paths"
| "walk_loop file_paths ((root, files) # rest) =
     walk_loop (files_loop file_paths root files) rest"

text \<open>
  The choice of the extractor:
  \<^verbatim>\<open>
    if path.suffix == ".py":
        items = parse_python(content)
    else:
        items = parse_generic_comments(content)
  \<close>
\<close>

definition extract_items ::
  "(string \<Rightarrow> py_module option) \<Rightarrow> (string \<Rightarrow> string) \<Rightarrow> string \<Rightarrow> string \<Rightarrow> item list" where
  "extract_items ast_parse cleandoc path content =
     (if path_suffix path = ''.py'' then parse_python ast_parse cleandoc content
      else parse_generic_comments content)"

text \<open>
  With the placeholder:
  \<^verbatim>\<open>
    if not items:
        items = [("Summary", f"No docstrings or comment blocks found in {path.name}")]
  \<close>
\<close>

definition file_items ::
  "(string \<Rightarrow> py_module option) \<Rightarrow> (string \<Rightarrow> string) \<Rightarrow> string \<Rightarrow> string \<Rightarrow> item list" where
  "file_items ast_parse cleandoc path content =
     (let items = extract_items ast_parse cleandoc path content
      in if items = []
         then [(''Summary'', ''No docstrings or comment blocks found in '' @ path_name path)]
         else items)"

text \<open>
  The loop over the items of one file:
  \<^verbatim>\<open>
    for title, body in items:
        doc_node = g.add_node("doc", title=title, body=body or "(no description)",
                              lang=path.suffix.lstrip("."))
        g.add_edge("for_file", doc_node, file_node)
  \<close>
\<close>

fun items_loop ::
  "(nat \<Rightarrow> nat) \<Rightarrow> GraphSimple \<Rightarrow> Node \<Rightarrow> string \<Rightarrow> item list \<Rightarrow> GraphSimple" where
  "items_loop ident g file_node lang [] = g"
| "items_loop ident g file_node lang ((title, body) # items) =
     (let (g, doc_node) =
            add_node ident g ''doc''
              [(''title'', title),
               (''body'', if body \<noteq> [] then body else ''(no description)''),
               (''lang'', lang)];
          (g, e) = add_edge g ''for_file'' doc_node file_node
      in items_loop ident g file_node lang items)"

text \<open>The body of \<^verbatim>\<open>for path in file_paths\<close>.\<close>

definition process_file ::
  "(nat \<Rightarrow> nat) \<Rightarrow> (string \<Rightarrow> py_module option) \<Rightarrow> (string \<Rightarrow> string) \<Rightarrow> (string \<Rightarrow> string) \<Rightarrow>
   GraphSimple \<Rightarrow> string \<Rightarrow> GraphSimple" where
  "process_file ident ast_parse cleandoc read_text g path =
     (let content = read_text path;
          (g, file_node) = add_node ident g ''file'' [(''path'', path), (''content'', content)];
          items = file_items ast_parse cleandoc path content
      in items_loop ident g file_node
           (dropWhile (\<lambda>c. c = CHR ''.'') (path_suffix path)) items)"

fun paths_loop ::
  "(nat \<Rightarrow> nat) \<Rightarrow> (string \<Rightarrow> py_module option) \<Rightarrow> (string \<Rightarrow> string) \<Rightarrow> (string \<Rightarrow> string) \<Rightarrow>
   GraphSimple \<Rightarrow> string list \<Rightarrow> GraphSimple" where
  "paths_loop ident ast_parse cleandoc read_text g [] = g"
| "paths_loop ident ast_parse cleandoc read_text g (path # paths) =
     paths_loop ident ast_parse cleandoc read_text
       (process_file ident ast_parse cleandoc read_text g path) paths"

subsection \<open>Rendering\<close>

text \<open>
  A dictionary lookup \<^verbatim>\<open>d[k]\<close> raises \<^verbatim>\<open>KeyError\<close> on a missing key; \<^verbatim>\<open>d.get(k, v)\<close>
  returns \<open>v\<close> there.
\<close>

datatype error = KeyError string

definition getitem :: "(string \<times> string) list \<Rightarrow> string \<Rightarrow> error + string" where
  "getitem d k = (case map_of d k of None \<Rightarrow> Inl (KeyError k) | Some v \<Rightarrow> Inr v)"

definition get_or :: "(string \<times> string) list \<Rightarrow> string \<Rightarrow> string \<Rightarrow> string" where
  "get_or d k v = (case map_of d k of None \<Rightarrow> v | Some x \<Rightarrow> x)"

text \<open>
  \<^verbatim>\<open>[e.source for e in g.edges if e.j_type == "for_file" and e.dest is file_node]\<close>;
  \<^verbatim>\<open>is\<close> compares the objects, that is their ids.
\<close>

definition linked_docs :: "GraphSimple \<Rightarrow> Node \<Rightarrow> Node list" where
  "linked_docs g file_node =
     map source
       (filter (\<lambda>e. edge_j_type e = ''for_file'' \<and> node_id (dest e) = node_id file_node)
          (edges g))"

text \<open>
  \<^verbatim>\<open>
    for doc in linked_docs:
        lines.append(f"## {doc.props.get('title','')}\n")
        body = doc.props.get("body", "(no description)")
        lines.append(body + "\n")
  \<close>
\<close>

fun docs_loop :: "string list \<Rightarrow> Node list \<Rightarrow> string list" where
  "docs_loop lines [] = lines"
| "docs_loop lines (doc # docs) =
     docs_loop
       (lines @ [''## '' @ get_or (props doc) ''title'' [] @ [NL],
                 get_or (props doc) ''body'' ''(no description)'' @ [NL]])
       docs"

text \<open>
  The body of \<^verbatim>\<open>for file_node in g.find_nodes("file")\<close>, up to the call of
  \<^verbatim>\<open>out.write_text\<close>: the path written to and the text written, or the exception.
\<close>

definition render_file :: "GraphSimple \<Rightarrow> Node \<Rightarrow> error + (string \<times> string)" where
  "render_file g file_node =
     (let linked = linked_docs g file_node
      in case getitem (props file_node) ''path'' of
           Inl e \<Rightarrow> Inl e
         | Inr path \<Rightarrow>
             (let lines = [''# '' @ path_name path @ [NL], ''_path_: `'' @ path @ ''`'' @ [NL]];
                  lines = (if linked = [] then lines @ [''No extracted docs found.'' @ [NL]]
                           else docs_loop lines linked)
              in Inr (''docs/'' @ path_name path @ ''.md'', join [NL] lines)))"

text \<open>
  The rendering loop. Its effect is the list of the calls of \<^verbatim>\<open>write_text\<close>, each a
  path and a text, in their order; an exception ends the run.
\<close>

fun render_loop ::
  "GraphSimple \<Rightarrow> (string \<times> string) list \<Rightarrow> Node list \<Rightarrow> error + (string \<times> string) list" where
  "render_loop g written [] = Inr written"
| "render_loop g written (file_node # file_nodes) =
     (case render_file g file_node of
        Inl e \<Rightarrow> Inl e
      | Inr w \<Rightarrow> render_loop g (written @ [w]) file_nodes)"

text \<open>
  \<^verbatim>\<open>main()\<close>: the walk, the early return when nothing was found, the graph, the
  rendering.
\<close>

definition build_graph ::
  "(nat \<Rightarrow> nat) \<Rightarrow> (string \<Rightarrow> py_module option) \<Rightarrow> (string \<Rightarrow> string) \<Rightarrow> (string \<Rightarrow> string) \<Rightarrow>
   string list \<Rightarrow> GraphSimple" where
  "build_graph ident ast_parse cleandoc read_text file_paths =
     paths_loop ident ast_parse cleandoc read_text \<lparr>nodes = [], edges = []\<rparr> file_paths"

definition main ::
  "(nat \<Rightarrow> nat) \<Rightarrow> (string \<Rightarrow> py_module option) \<Rightarrow> (string \<Rightarrow> string) \<Rightarrow> (string \<Rightarrow> string) \<Rightarrow>
   (string \<times> string list) list \<Rightarrow> error + (string \<times> string) list" where
  "main ident ast_parse cleandoc read_text walk =
     (let file_paths = walk_loop [] walk
      in if file_paths = [] then Inr []
         else (let g = build_graph ident ast_parse cleandoc read_text file_paths
               in render_loop g [] (find_nodes g ''file'')))"

text \<open>
  \<^verbatim>\<open>write_text\<close> replaces the file. The output directory after the calls \<open>ws\<close>, from
  the directory \<open>fs\<close> before them:
\<close>

fun write_all :: "(string \<rightharpoonup> string) \<Rightarrow> (string \<times> string) list \<Rightarrow> (string \<rightharpoonup> string)" where
  "write_all fs [] = fs"
| "write_all fs ((out, text) # ws) = write_all (fs(out \<mapsto> text)) ws"

subsection \<open>The states of the graph\<close>

text \<open>
  The same loops once more, now returning every state the graph is in after a call of
  \<^verbatim>\<open>add_node\<close> or \<^verbatim>\<open>add_edge\<close>, in the order of the calls.
\<close>

fun items_states ::
  "(nat \<Rightarrow> nat) \<Rightarrow> GraphSimple \<Rightarrow> Node \<Rightarrow> string \<Rightarrow> item list \<Rightarrow> GraphSimple list" where
  "items_states ident g file_node lang [] = []"
| "items_states ident g file_node lang ((title, body) # items) =
     (let (g1, doc_node) =
            add_node ident g ''doc''
              [(''title'', title),
               (''body'', if body \<noteq> [] then body else ''(no description)''),
               (''lang'', lang)];
          (g2, e) = add_edge g1 ''for_file'' doc_node file_node
      in g1 # g2 # items_states ident g2 file_node lang items)"

definition file_states ::
  "(nat \<Rightarrow> nat) \<Rightarrow> (string \<Rightarrow> py_module option) \<Rightarrow> (string \<Rightarrow> string) \<Rightarrow> (string \<Rightarrow> string) \<Rightarrow>
   GraphSimple \<Rightarrow> string \<Rightarrow> GraphSimple list" where
  "file_states ident ast_parse cleandoc read_text g path =
     (let content = read_text path;
          (g1, file_node) = add_node ident g ''file'' [(''path'', path), (''content'', content)];
          items = file_items ast_parse cleandoc path content
      in g1 # items_states ident g1 file_node
                (dropWhile (\<lambda>c. c = CHR ''.'') (path_suffix path)) items)"

fun paths_states ::
  "(nat \<Rightarrow> nat) \<Rightarrow> (string \<Rightarrow> py_module option) \<Rightarrow> (string \<Rightarrow> string) \<Rightarrow> (string \<Rightarrow> string) \<Rightarrow>
   GraphSimple \<Rightarrow> string list \<Rightarrow> GraphSimple list" where
  "paths_states ident ast_parse cleandoc read_text g [] = []"
| "paths_states ident ast_parse cleandoc read_text g (path # paths) =
     file_states ident ast_parse cleandoc read_text g path @
     paths_states ident ast_parse cleandoc read_text
       (process_file ident ast_parse cleandoc read_text g path) paths"

definition graph_states ::
  "(nat \<Rightarrow> nat) \<Rightarrow> (string \<Rightarrow> py_module option) \<Rightarrow> (string \<Rightarrow> string) \<Rightarrow> (string \<Rightarrow> string) \<Rightarrow>
   (string \<times> string list) list \<Rightarrow> GraphSimple list" where
  "graph_states ident ast_parse cleandoc read_text walk =
     \<lparr>nodes = [], edges = []\<rparr> #
     paths_states ident ast_parse cleandoc read_text \<lparr>nodes = [], edges = []\<rparr> (walk_loop [] walk)"

section \<open>The extractors as the specification words them\<close>

subsection \<open>Comment extraction\<close>

text \<open>
  The maximal runs of consecutive elements that satisfy \<open>P\<close>, in the order of the list.
\<close>

function maximal_runs :: "('a \<Rightarrow> bool) \<Rightarrow> 'a list \<Rightarrow> 'a list list" where
  "maximal_runs P xs =
     (case dropWhile (\<lambda>x. \<not> P x) xs of
        [] \<Rightarrow> []
      | y # ys \<Rightarrow> takeWhile P (y # ys) # maximal_runs P (dropWhile P (y # ys)))"
  by pat_completeness auto
termination
proof (relation "measure (\<lambda>(P, xs). length xs)", goal_cases)
  case 1
  show ?case by simp
next
  case (2 P xs y ys)
  have "P y" using hd_dropWhile [of "\<lambda>x. \<not> P x" xs] 2 by simp
  then have "length (dropWhile P (y # ys)) \<le> length ys"
    by (simp add: length_dropWhile_le)
  moreover have "length (y # ys) \<le> length xs"
    using length_dropWhile_le [of "\<lambda>x. \<not> P x" xs] 2 by simp
  ultimately show ?case by simp
qed

declare maximal_runs.simps [simp del]

text \<open>
  A comment line is a line whose stripped form starts with \<^verbatim>\<open>//\<close> or \<^verbatim>\<open>#\<close>; its text is
  what follows the marker, trimmed. The item of a run is the texts of its lines joined by
  newlines and trimmed.
\<close>

definition is_comment_line :: "string \<Rightarrow> bool" where
  "is_comment_line ln = (startswith (strip ln) ''//'' \<or> startswith (strip ln) ''#'')"

definition comment_text :: "string \<Rightarrow> string" where
  "comment_text ln =
     (if startswith (strip ln) ''//'' then strip (drop 2 (strip ln)) else strip (drop 1 (strip ln)))"

definition run_item :: "string list \<Rightarrow> item" where
  "run_item texts = (''comment_block'', strip (join [NL] texts))"

text \<open>
  The items of the block comments, those that are not empty once trimmed, in the order
  of the matches; and the items of the runs of comment lines, in the order of the lines.
\<close>

definition block_items :: "string \<Rightarrow> item list" where
  "block_items content =
     map (\<lambda>s. (''comment_block'', s)) (filter (\<lambda>s. s \<noteq> []) (map strip (cblock_finditer content)))"

definition line_run_items :: "string \<Rightarrow> item list" where
  "line_run_items content =
     map (\<lambda>r. run_item (map comment_text r)) (maximal_runs is_comment_line (splitlines content))"

text \<open>The flush at the end of the input, on the state \<open>(items, buff)\<close> of the line loop.\<close>

definition flush :: "item list \<times> string list \<Rightarrow> item list" where
  "flush st = (if snd st \<noteq> [] then fst st @ [run_item (snd st)] else fst st)"

subsection \<open>Structured extraction\<close>

text \<open>
  The line of a method in the \<^verbatim>\<open>Methods:\<close> section, the methods a class body defines
  directly (name and trimmed docstring, in the order of declaration), and the body of the
  item of a class from its trimmed docstring and its methods.
\<close>

definition method_line :: "string \<times> string \<Rightarrow> string" where
  "method_line m = ''- '' @ fst m @ ''(): '' @ (if snd m \<noteq> [] then snd m else ''(no doc)'')"

fun method_of :: "(string \<Rightarrow> string) \<Rightarrow> stmt \<Rightarrow> (string \<times> string) list" where
  "method_of cleandoc (FunctionDef mname b) = [(mname, strip (docstring_or_empty cleandoc b))]"
| "method_of cleandoc (AsyncFunctionDef mname b) = [(mname, strip (docstring_or_empty cleandoc b))]"
| "method_of cleandoc elt = []"

definition class_methods :: "(string \<Rightarrow> string) \<Rightarrow> stmt list \<Rightarrow> (string \<times> string) list" where
  "class_methods cleandoc body = concat (map (method_of cleandoc) body)"

definition class_body :: "string \<Rightarrow> (string \<times> string) list \<Rightarrow> string" where
  "class_body doc ms =
     (if ms = [] then (if doc = [] then ''(no doc)'' else doc)
      else (if doc = [] then [] else doc @ ''\<newline>\<newline>'') @ ''Methods:\<newline>'' @
           join [NL] (map method_line ms))"

text \<open>
  The items one top-level statement contributes, and the item of the module docstring:
  present when the cleaned docstring is not empty.
\<close>

fun def_items :: "(string \<Rightarrow> string) \<Rightarrow> stmt \<Rightarrow> item list" where
  "def_items cleandoc (FunctionDef name b) =
     [(''def '' @ name @ ''()'', strip (docstring_or_empty cleandoc b))]"
| "def_items cleandoc (AsyncFunctionDef name b) =
     [(''async def '' @ name @ ''()'', strip (docstring_or_empty cleandoc b))]"
| "def_items cleandoc (ClassDef name b) =
     [(''class '' @ name,
       class_body (strip (docstring_or_empty cleandoc b)) (class_methods cleandoc b))]"
| "def_items cleandoc node = []"

definition module_item :: "(string \<Rightarrow> string) \<Rightarrow> stmt list \<Rightarrow> item list" where
  "module_item cleandoc body =
     (case get_docstring cleandoc body of
        None \<Rightarrow> []
      | Some d \<Rightarrow> if d \<noteq> [] then [(''module'', strip d)] else [])"

text \<open>The item of the module docstring when it is emitted for every docstring that exists.\<close>

definition stated_module_item :: "(string \<Rightarrow> string) \<Rightarrow> stmt list \<Rightarrow> item list" where
  "stated_module_item cleandoc body =
     (case get_docstring cleandoc body of None \<Rightarrow> [] | Some d \<Rightarrow> [(''module'', strip d)])"


subsection \<open>The files written\<close>

text \<open>
  The text written for a file, from its path and its items alone; the path written to;
  and the calls of \<^verbatim>\<open>write_text\<close> for a list of source paths.
\<close>

definition doc_body :: "string \<Rightarrow> string" where
  "doc_body b = (if b \<noteq> [] then b else ''(no description)'')"

definition doc_lines :: "item \<Rightarrow> string list" where
  "doc_lines it = [''## '' @ fst it @ [NL], doc_body (snd it) @ [NL]]"

definition render_text :: "string \<Rightarrow> item list \<Rightarrow> string" where
  "render_text path items =
     join [NL]
       ([''# '' @ path_name path @ [NL], ''_path_: `'' @ path @ ''`'' @ [NL]] @
        (if items = [] then [''No extracted docs found.'' @ [NL]]
         else concat (map doc_lines items)))"

definition out_path :: "string \<Rightarrow> string" where
  "out_path path = ''docs/'' @ path_name path @ ''.md''"

definition expected_writes ::
  "(string \<Rightarrow> py_module option) \<Rightarrow> (string \<Rightarrow> string) \<Rightarrow> (string \<Rightarrow> string) \<Rightarrow>
   string list \<Rightarrow> (string \<times> string) list" where
  "expected_writes ast_parse cleandoc read_text file_paths =
     map (\<lambda>p. (out_path p, render_text p (file_items ast_parse cleandoc p (read_text p))))
       file_paths"

text \<open>
  The nodes and edges the orchestrator makes for a file: the file node, made when the
  graph holds \<open>k\<close> nodes, the doc nodes of its items, made from \<open>k\<close> nodes on, and the edge
  from a doc node to the file node.
\<close>

definition file_lang :: "string \<Rightarrow> string" where
  "file_lang path = dropWhile (\<lambda>c. c = CHR ''.'') (path_suffix path)"

definition file_node_of :: "(nat \<Rightarrow> nat) \<Rightarrow> nat \<Rightarrow> string \<Rightarrow> string \<Rightarrow> Node" where
  "file_node_of ident k path content =
     \<lparr>j_type = ''file'', props = [(''path'', path), (''content'', content)], node_id = ident k\<rparr>"

definition doc_node_of :: "(nat \<Rightarrow> nat) \<Rightarrow> string \<Rightarrow> nat \<Rightarrow> item \<Rightarrow> Node" where
  "doc_node_of ident lang k it =
     \<lparr>j_type = ''doc'',
      props = [(''title'', fst it), (''body'', doc_body (snd it)), (''lang'', lang)],
      node_id = ident k\<rparr>"

fun doc_nodes :: "(nat \<Rightarrow> nat) \<Rightarrow> string \<Rightarrow> nat \<Rightarrow> item list \<Rightarrow> Node list" where
  "doc_nodes ident lang k [] = []"
| "doc_nodes ident lang k (it # its) =
     doc_node_of ident lang k it # doc_nodes ident lang (Suc k) its"

definition for_file_edge :: "Node \<Rightarrow> Node \<Rightarrow> Edge" where
  "for_file_edge f d = \<lparr>edge_j_type = ''for_file'', source = d, dest = f\<rparr>"

text \<open>
  The ids in the graph are those given out so far: the id of every node, and of the
  destination of every edge, is \<open>ident k\<close> for some \<open>k\<close> below the number of nodes.
\<close>

definition ids_known :: "(nat \<Rightarrow> nat) \<Rightarrow> GraphSimple \<Rightarrow> bool" where
  "ids_known ident g =
     ((\<forall>n\<in>set (nodes g). \<exists>k<length (nodes g). node_id n = ident k) \<and>
      (\<forall>e\<in>set (edges g). \<exists>k<length (nodes g). node_id (dest e) = ident k))"

text \<open>
  The invariant of the edges: every edge is a \<^verbatim>\<open>for_file\<close> edge from a doc node of the
  graph to a file node of the graph.
\<close>

definition graph_inv :: "GraphSimple \<Rightarrow> bool" where
  "graph_inv g =
     list_all
       (\<lambda>e. edge_j_type e = ''for_file'' \<and>
            j_type (source e) = ''doc'' \<and> source e \<in> set (nodes g) \<and>
            j_type (dest e) = ''file'' \<and> dest e \<in> set (nodes g))
       (edges g)"

text \<open>Every file node of the graph has a doc node linked to it.\<close>

definition every_file_linked :: "GraphSimple \<Rightarrow> bool" where
  "every_file_linked g =
     list_all (\<lambda>f. j_type f = ''file'' \<longrightarrow> linked_docs g f \<noteq> []) (nodes g)"


section \<open>Facts about trimming\<close>

lemma lstrip_keeps:
  "s \<noteq> [] \<Longrightarrow> \<not> is_space (hd s) \<Longrightarrow> lstrip (s @ t) = s @ t"
  by (cases s) (simp_all add: lstrip_def)

lemma lstrip_drops:
  "\<forall>c\<in>set w. is_space c \<Longrightarrow> lstrip (w @ t) = lstrip t"
  unfolding lstrip_def by (intro dropWhile_append2) simp

lemma rstrip_keeps:
  "s \<noteq> [] \<Longrightarrow> \<not> is_space (last s) \<Longrightarrow> rstrip (t @ s) = t @ s"
  by (cases s rule: rev_cases) (simp_all add: rstrip_def)

lemma rstrip_drops:
  "\<forall>c\<in>set w. is_space c \<Longrightarrow> rstrip (t @ w) = rstrip t"
proof -
  assume "\<forall>c\<in>set w. is_space c"
  then have "dropWhile is_space (rev w @ rev t) = dropWhile is_space (rev t)"
    by (intro dropWhile_append2) simp
  then show ?thesis by (simp add: rstrip_def)
qed

lemma strip_Nil: "strip [] = []"
  by (simp add: strip_def lstrip_def rstrip_def)

lemma strip_ends:
  assumes "strip s \<noteq> []"
  shows "\<not> is_space (hd (strip s))" and "\<not> is_space (last (strip s))"
proof -
  let ?t = "dropWhile is_space s"
  have t: "?t \<noteq> []"
  proof
    assume "?t = []"
    then have "strip s = []"
      by (simp only: strip_def lstrip_def rstrip_def rev.simps dropWhile.simps)
    then show False using assms by simp
  qed
  then have h: "\<not> is_space (hd ?t)" by (rule hd_dropWhile)
  have r: "strip s = rev (dropWhile is_space (rev ?t))"
    by (simp add: strip_def lstrip_def rstrip_def)
  have ne: "dropWhile is_space (rev ?t) \<noteq> []" using assms r by simp
  then have "\<not> is_space (hd (dropWhile is_space (rev ?t)))" by (rule hd_dropWhile)
  then show "\<not> is_space (last (strip s))" using ne by (simp add: r last_rev)
  have "strip s @ rev (takeWhile is_space (rev ?t)) =
      rev (takeWhile is_space (rev ?t) @ dropWhile is_space (rev ?t))"
    unfolding r by (simp only: rev_append)
  also have "\<dots> = ?t"
    by (simp only: takeWhile_dropWhile_id rev_rev_ident)
  finally have "?t = strip s @ rev (takeWhile is_space (rev ?t))" by simp
  then have "hd ?t = hd (strip s)" using assms by (metis hd_append2)
  then show "\<not> is_space (hd (strip s))" using h by simp
qed

lemma strip_fixed:
  "s \<noteq> [] \<Longrightarrow> \<not> is_space (hd s) \<Longrightarrow> \<not> is_space (last s) \<Longrightarrow> strip s = s"
  using lstrip_keeps [of s "[]"] rstrip_keeps [of s "[]"] by (simp add: strip_def)

lemma strip_strip: "strip (strip s) = strip s"
  by (cases "strip s = []") (simp_all add: strip_Nil strip_fixed strip_ends)



section \<open>The generic comment extractor meets its description\<close>

lemma maximal_runs_Nil: "maximal_runs P [] = []"
  by (simp add: maximal_runs.simps)

lemma maximal_runs_skip: "\<not> P x \<Longrightarrow> maximal_runs P (x # xs) = maximal_runs P xs"
  by (simp add: maximal_runs.simps [of P "x # xs"] maximal_runs.simps [of P xs])

lemma maximal_runs_split:
  "maximal_runs P xs =
     (if takeWhile P xs = [] then [] else [takeWhile P xs]) @ maximal_runs P (dropWhile P xs)"
proof (cases xs)
  case Nil
  then show ?thesis by (simp add: maximal_runs_Nil)
next
  case (Cons x xs')
  show ?thesis
  proof (cases "P x")
    case True
    then show ?thesis using Cons by (simp add: maximal_runs.simps [of P "x # xs'"])
  next
    case False
    then show ?thesis using Cons by simp
  qed
qed

lemma block_loop_eq:
  "block_loop items gs =
     items @ map (\<lambda>s. (''comment_block'', s)) (filter (\<lambda>s. s \<noteq> []) (map strip gs))"
  by (induction gs arbitrary: items) (simp_all add: Let_def)

lemma line_loop_comment:
  "is_comment_line ln \<Longrightarrow>
   line_loop (items, buff) (ln # lns) = line_loop (items, buff @ [comment_text ln]) lns"
  by (auto simp: is_comment_line_def comment_text_def Let_def)

lemma line_loop_other:
  "\<not> is_comment_line ln \<Longrightarrow>
   line_loop (items, buff) (ln # lns) =
     line_loop (if buff \<noteq> [] then items @ [run_item buff] else items, []) lns"
  by (auto simp: is_comment_line_def run_item_def Let_def)

lemma line_loop_flush:
  "flush (line_loop (items, buff) lns) =
     items @
     (if buff @ map comment_text (takeWhile is_comment_line lns) = [] then []
      else [run_item (buff @ map comment_text (takeWhile is_comment_line lns))]) @
     map (\<lambda>r. run_item (map comment_text r))
       (maximal_runs is_comment_line (dropWhile is_comment_line lns))"
proof (induction lns arbitrary: items buff)
  case Nil
  then show ?case by (simp add: flush_def maximal_runs_Nil)
next
  case (Cons ln lns)
  show ?case
  proof (cases "is_comment_line ln")
    case True
    then show ?thesis
      using Cons.IH [of items "buff @ [comment_text ln]"]
      by (simp add: line_loop_comment del: line_loop.simps)
  next
    case False
    have skip: "maximal_runs is_comment_line (ln # lns) = maximal_runs is_comment_line lns"
      using False by (rule maximal_runs_skip)
    have rest: "map (\<lambda>r. run_item (map comment_text r)) (maximal_runs is_comment_line lns) =
      (if map comment_text (takeWhile is_comment_line lns) = [] then []
       else [run_item (map comment_text (takeWhile is_comment_line lns))]) @
      map (\<lambda>r. run_item (map comment_text r))
        (maximal_runs is_comment_line (dropWhile is_comment_line lns))"
      by (subst maximal_runs_split) simp
    show ?thesis
      using False Cons.IH [of "items @ [run_item buff]" "[]"] Cons.IH [of items "[]"] rest
      by (simp add: line_loop_other skip del: line_loop.simps)
  qed
qed

lemma parse_generic_comments_eq:
  "parse_generic_comments content = block_items content @ line_run_items content"
proof -
  have "parse_generic_comments content =
    flush (line_loop (block_loop [] (cblock_finditer content), []) (splitlines content))"
    by (simp add: parse_generic_comments_def flush_def run_item_def Let_def split: prod.splits)
  also have "\<dots> = block_loop [] (cblock_finditer content) @ line_run_items content"
    unfolding line_run_items_def
    by (subst line_loop_flush, subst (2) maximal_runs_split) simp
  finally show ?thesis by (simp add: block_loop_eq block_items_def)
qed

lemma parse_generic_comments_example:
  "parse_generic_comments ''/* A */\<newline>// x\<newline>// y\<newline>// z'' =
     [(''comment_block'', ''A''), (''comment_block'', ''x\<newline>y\<newline>z'')]"
  by code_simp

text \<open>
  C3. For every input text, \<^verbatim>\<open>parse_generic_comments\<close> returns the items of the
  non-empty trimmed \<^verbatim>\<open>/* ... */\<close> block comments first, in their order in the text, and
  behind them the items of the runs of consecutive comment lines (lines whose stripped
  form starts with \<^verbatim>\<open>//\<close> or \<^verbatim>\<open>#\<close>), each run joined by newlines and trimmed, in
  their order in the text; the two groups are not merged by position. The text
  \<^verbatim>\<open>/* A */\<close> followed by three \<^verbatim>\<open>//\<close> lines gives two items, the block comment first.
\<close>

theorem C3_generic_blocks_then_line_runs:
  "parse_generic_comments content = block_items content @ line_run_items content \<and>
   parse_generic_comments ''/* A */\<newline>// x\<newline>// y\<newline>// z'' =
     [(''comment_block'', ''A''), (''comment_block'', ''x\<newline>y\<newline>z'')]"
  using parse_generic_comments_eq parse_generic_comments_example by simp

section \<open>The structured extractor meets its description\<close>

lemma methods_loop_eq:
  "methods_loop cleandoc methods body = methods @ class_methods cleandoc body"
  by (induction cleandoc methods body rule: methods_loop.induct)
     (simp_all add: class_methods_def)

lemma method_lines_loop_eq:
  "method_lines_loop body_lines ms = body_lines @ concat (map (\<lambda>m. method_line m @ [NL]) ms)"
  by (induction body_lines ms rule: method_lines_loop.induct)
     (simp_all add: method_line_def)

lemma concat_lines_join:
  "xs \<noteq> [] \<Longrightarrow> concat (map (\<lambda>x. f x @ [NL]) xs) = join [NL] (map f xs) @ [NL]"
proof (induction xs)
  case Nil
  then show ?case by simp
next
  case (Cons x xs)
  then show ?case by (cases xs) simp_all
qed

lemma join_last:
  "xs \<noteq> [] \<Longrightarrow> last xs \<noteq> [] \<Longrightarrow> join sep xs \<noteq> [] \<and> last (join sep xs) = last (last xs)"
proof (induction sep xs rule: join.induct)
  case (1 sep)
  then show ?case by simp
next
  case (2 sep x)
  then show ?case by simp
next
  case (3 sep x y ys)
  then show ?case by simp
qed

lemma method_line_end:
  "snd m = strip d \<Longrightarrow> method_line m \<noteq> [] \<and> \<not> is_space (last (method_line m))"
proof (cases "strip d = []")
  case True
  assume "snd m = strip d"
  then show ?thesis using True by (simp add: method_line_def is_space_def)
next
  case False
  assume "snd m = strip d"
  then show ?thesis using False strip_ends(2) [OF False] by (simp add: method_line_def)
qed

lemma class_methods_stripped:
  "m \<in> set (class_methods cleandoc body) \<Longrightarrow> \<exists>d. snd m = strip d"
proof -
  assume "m \<in> set (class_methods cleandoc body)"
  then obtain elt where "m \<in> set (method_of cleandoc elt)"
    by (auto simp: class_methods_def)
  then show ?thesis by (cases elt) auto
qed

lemma method_lines_end:
  assumes "ms \<noteq> []" and "\<forall>m\<in>set ms. \<exists>d. snd m = strip d"
  shows "join [NL] (map method_line ms) \<noteq> [] \<and>
         \<not> is_space (last (join [NL] (map method_line ms)))"
proof -
  obtain d where "snd (last ms) = strip d" using assms by (meson last_in_set)
  then have e: "method_line (last ms) \<noteq> [] \<and> \<not> is_space (last (method_line (last ms)))"
    by (rule method_line_end)
  have l: "last (map method_line ms) = method_line (last ms)"
    using assms(1) by (simp add: last_map)
  show ?thesis
    using join_last [of "map method_line ms" "[NL]"] assms(1) e l by simp
qed

lemma strip_methods_section:
  assumes "ms \<noteq> []" and "\<forall>m\<in>set ms. \<exists>d. snd m = strip d"
  shows "strip (strip doc @ ''\<newline>\<newline>Methods:\<newline>'' @ concat (map (\<lambda>m. method_line m @ [NL]) ms)) =
         (if strip doc = [] then [] else strip doc @ ''\<newline>\<newline>'') @ ''Methods:\<newline>'' @
         join [NL] (map method_line ms)"
proof -
  let ?J = "join [NL] (map method_line ms)"
  have J: "?J \<noteq> []" "\<not> is_space (last ?J)"
    using method_lines_end [OF assms] by simp_all
  have c: "concat (map (\<lambda>m. method_line m @ [NL]) ms) = ?J @ [NL]"
    using assms(1) by (rule concat_lines_join)
  have sp: "\<forall>c\<in>set [NL]. is_space c" by (simp add: is_space_def)
  show ?thesis
  proof (cases "strip doc = []")
    case True
    have "lstrip (''\<newline>\<newline>'' @ ''Methods:\<newline>'' @ ?J @ [NL]) = lstrip (''Methods:\<newline>'' @ ?J @ [NL])"
      by (rule lstrip_drops) (simp add: is_space_def)
    also have "\<dots> = ''Methods:\<newline>'' @ ?J @ [NL]"
      by (rule lstrip_keeps) (simp_all add: is_space_def)
    finally have l: "lstrip (''\<newline>\<newline>Methods:\<newline>'' @ ?J @ [NL]) = ''Methods:\<newline>'' @ ?J @ [NL]"
      by simp
    have "rstrip ((''Methods:\<newline>'' @ ?J) @ [NL]) = rstrip (''Methods:\<newline>'' @ ?J)"
      using sp by (rule rstrip_drops)
    also have "\<dots> = ''Methods:\<newline>'' @ ?J"
      using J by (rule rstrip_keeps)
    finally have r: "rstrip (''Methods:\<newline>'' @ ?J @ [NL]) = ''Methods:\<newline>'' @ ?J"
      by simp
    show ?thesis using True c l r by (simp add: strip_def)
  next
    case False
    let ?S = "strip doc"
    have "lstrip (?S @ ''\<newline>\<newline>Methods:\<newline>'' @ ?J @ [NL]) = ?S @ ''\<newline>\<newline>Methods:\<newline>'' @ ?J @ [NL]"
      using False strip_ends(1) [OF False] by (rule lstrip_keeps)
    moreover have "rstrip ((?S @ ''\<newline>\<newline>Methods:\<newline>'' @ ?J) @ [NL]) = rstrip (?S @ ''\<newline>\<newline>Methods:\<newline>'' @ ?J)"
      using sp by (rule rstrip_drops)
    moreover have "rstrip ((?S @ ''\<newline>\<newline>Methods:\<newline>'') @ ?J) = (?S @ ''\<newline>\<newline>Methods:\<newline>'') @ ?J"
      using J by (rule rstrip_keeps)
    ultimately show ?thesis using False c by (simp add: strip_def)
  qed
qed

lemma class_item_eq:
  "class_item cleandoc name body =
     (''class '' @ name,
      class_body (strip (docstring_or_empty cleandoc body)) (class_methods cleandoc body))"
proof (cases "class_methods cleandoc body = []")
  case True
  then show ?thesis
    by (simp add: class_item_def methods_loop_eq class_body_def strip_strip Let_def)
next
  case False
  have st: "\<forall>m\<in>set (class_methods cleandoc body). \<exists>d. snd m = strip d"
    using class_methods_stripped by blast
  have ne: "join [NL] (map method_line (class_methods cleandoc body)) \<noteq> []"
    using method_lines_end [OF False st] by simp
  show ?thesis
    using False ne strip_methods_section [OF False st, of "docstring_or_empty cleandoc body"]
    by (simp add: class_item_def methods_loop_eq method_lines_loop_eq class_body_def Let_def)
qed

lemma body_loop_eq:
  "body_loop cleandoc items body = items @ concat (map (def_items cleandoc) body)"
  by (induction cleandoc items body rule: body_loop.induct)
     (simp_all add: class_item_eq)

lemma parse_module_eq:
  "parse_module cleandoc (Module body) =
     module_item cleandoc body @ concat (map (def_items cleandoc) body)"
  by (simp add: body_loop_eq module_item_def split: option.splits)

section \<open>The orchestrator writes what the items say\<close>

lemma items_loop_eq:
  "items_loop ident g f lang items =
     g\<lparr>nodes := nodes g @ doc_nodes ident lang (length (nodes g)) items,
       edges := edges g @ map (for_file_edge f) (doc_nodes ident lang (length (nodes g)) items)\<rparr>"
proof (induction items arbitrary: g)
  case Nil
  show ?case by simp
next
  case (Cons it items)
  obtain title body where it: "it = (title, body)" by (cases it)
  show ?case
    unfolding it
    by (simp add: add_node_def add_edge_def Cons.IH Let_def doc_node_of_def doc_body_def
        for_file_edge_def)
qed

lemma process_file_eq:
  "process_file ident ast_parse cleandoc read_text g path =
     (let n = length (nodes g);
          f = file_node_of ident n path (read_text path);
          ds = doc_nodes ident (file_lang path) (Suc n)
                 (file_items ast_parse cleandoc path (read_text path))
      in g\<lparr>nodes := nodes g @ f # ds, edges := edges g @ map (for_file_edge f) ds\<rparr>)"
  by (simp add: process_file_def add_node_def items_loop_eq Let_def file_node_of_def file_lang_def)

lemma doc_nodes_length: "length (doc_nodes ident lang k items) = length items"
  by (induction items arbitrary: k) simp_all

lemma doc_nodes_Nil: "doc_nodes ident lang k items = [] \<longleftrightarrow> items = []"
  by (cases items) simp_all

lemma doc_nodes_member:
  "d \<in> set (doc_nodes ident lang k items) \<Longrightarrow>
   j_type d = ''doc'' \<and> (\<exists>i. k \<le> i \<and> i < k + length items \<and> node_id d = ident i)"
proof (induction items arbitrary: k)
  case Nil
  then show ?case by simp
next
  case (Cons it items)
  from Cons.prems have "d = doc_node_of ident lang k it \<or> d \<in> set (doc_nodes ident lang (Suc k) items)"
    by simp
  then show ?case
  proof
    assume "d = doc_node_of ident lang k it"
    then show ?thesis by (auto simp: doc_node_of_def)
  next
    assume "d \<in> set (doc_nodes ident lang (Suc k) items)"
    from Cons.IH [OF this] obtain i where "j_type d = ''doc''" "Suc k \<le> i" "i < Suc k + length items"
      "node_id d = ident i" by blast
    then show ?thesis by (intro conjI exI [of _ i]) simp_all
  qed
qed

lemma ids_known_empty: "ids_known ident \<lparr>nodes = [], edges = []\<rparr>"
  by (simp add: ids_known_def)

lemma ids_known_process_file:
  assumes "ids_known ident g"
  shows "ids_known ident (process_file ident ast_parse cleandoc read_text g path)"
proof -
  let ?n = "length (nodes g)"
  let ?items = "file_items ast_parse cleandoc path (read_text path)"
  let ?f = "file_node_of ident ?n path (read_text path)"
  let ?ds = "doc_nodes ident (file_lang path) (Suc ?n) ?items"
  let ?m = "?n + Suc (length ?items)"
  have len: "length (nodes g @ ?f # ?ds) = ?m" by (simp add: doc_nodes_length)
  have old: "\<exists>k<?m. node_id x = ident k" if "x \<in> set (nodes g)" for x
  proof -
    from assms that obtain k where "k < ?n" "node_id x = ident k" by (auto simp: ids_known_def)
    then show ?thesis by (intro exI [of _ k]) simp
  qed
  have f: "\<exists>k<?m. node_id ?f = ident k"
    by (intro exI [of _ ?n]) (simp add: file_node_of_def)
  have new: "\<exists>k<?m. node_id d = ident k" if "d \<in> set ?ds" for d
  proof -
    from doc_nodes_member [OF that] obtain i where "i < Suc ?n + length ?items" "node_id d = ident i"
      by blast
    then show ?thesis by (intro exI [of _ i]) simp
  qed
  have olde: "\<exists>k<?m. node_id (dest e) = ident k" if "e \<in> set (edges g)" for e
  proof -
    from assms that obtain k where "k < ?n" "node_id (dest e) = ident k" by (auto simp: ids_known_def)
    then show ?thesis by (intro exI [of _ k]) simp
  qed
  show ?thesis
    unfolding process_file_eq Let_def ids_known_def
    using old f new olde by (auto simp: doc_nodes_length for_file_edge_def)
qed

lemma ids_known_paths_loop:
  "ids_known ident g \<Longrightarrow> ids_known ident (paths_loop ident ast_parse cleandoc read_text g paths)"
  by (induction paths arbitrary: g) (simp_all add: ids_known_process_file)


lemma find_nodes_process_file:
  "find_nodes (process_file ident ast_parse cleandoc read_text g path) ''file'' =
     find_nodes g ''file'' @ [file_node_of ident (length (nodes g)) path (read_text path)]"
proof -
  have "filter (\<lambda>n. j_type n = ''file'') (doc_nodes ident lang k items) = []" for lang k items
    by (induction items arbitrary: k) (simp_all add: doc_node_of_def)
  then show ?thesis
    by (simp add: process_file_eq find_nodes_def Let_def file_node_of_def)
qed

lemma linked_docs_old:
  assumes "inj ident" and "ids_known ident g" and "f \<in> set (nodes g)"
  shows "linked_docs (process_file ident ast_parse cleandoc read_text g path) f = linked_docs g f"
proof -
  from assms(2,3) obtain k where k: "k < length (nodes g)" "node_id f = ident k"
    by (auto simp: ids_known_def)
  have "ident (length (nodes g)) \<noteq> ident k"
    using assms(1) k(1) by (auto dest: injD)
  then have "filter (\<lambda>e. edge_j_type e = ''for_file'' \<and> node_id (dest e) = node_id f)
      (map (for_file_edge (file_node_of ident (length (nodes g)) path c)) ds) = []" for c ds
    by (simp add: for_file_edge_def file_node_of_def k(2) filter_empty_conv o_def)
  then show ?thesis
    by (simp add: process_file_eq linked_docs_def Let_def)
qed

lemma linked_docs_new:
  assumes "inj ident" and "ids_known ident g"
  shows "linked_docs (process_file ident ast_parse cleandoc read_text g path)
           (file_node_of ident (length (nodes g)) path (read_text path)) =
         doc_nodes ident (file_lang path) (Suc (length (nodes g)))
           (file_items ast_parse cleandoc path (read_text path))"
proof -
  let ?n = "length (nodes g)"
  let ?f = "file_node_of ident ?n path (read_text path)"
  have "node_id (dest e) \<noteq> node_id ?f" if "e \<in> set (edges g)" for e
  proof -
    from assms(2) that obtain k where "k < ?n" "node_id (dest e) = ident k"
      by (auto simp: ids_known_def)
    then show ?thesis using assms(1) by (auto simp: file_node_of_def dest: injD)
  qed
  then have old: "filter (\<lambda>e. edge_j_type e = ''for_file'' \<and> node_id (dest e) = node_id ?f)
      (edges g) = []"
    by (simp add: filter_empty_conv)
  have new: "map source (filter (\<lambda>e. edge_j_type e = ''for_file'' \<and> node_id (dest e) = node_id ?f)
      (map (for_file_edge ?f) ds)) = ds" for ds
    by (induction ds) (simp_all add: for_file_edge_def)
  show ?thesis
    by (simp add: process_file_eq linked_docs_def Let_def old new)
qed

lemma docs_loop_eq:
  "docs_loop lines (doc_nodes ident lang k items) = lines @ concat (map doc_lines items)"
  by (induction items arbitrary: lines k)
     (simp_all add: doc_node_of_def doc_lines_def get_or_def)

lemma render_file_cong:
  "linked_docs g' f = linked_docs g f \<Longrightarrow> render_file g' f = render_file g f"
  by (simp add: render_file_def)

lemma render_file_new:
  assumes "inj ident" and "ids_known ident g"
  shows "render_file (process_file ident ast_parse cleandoc read_text g path)
           (file_node_of ident (length (nodes g)) path (read_text path)) =
         Inr (out_path path, render_text path (file_items ast_parse cleandoc path (read_text path)))"
  unfolding render_file_def linked_docs_new [OF assms]
  by (simp add: file_node_of_def getitem_def docs_loop_eq doc_nodes_Nil render_text_def
      out_path_def Let_def)

lemma renders_process_file:
  assumes "inj ident" and "ids_known ident g"
  shows "map (render_file (process_file ident ast_parse cleandoc read_text g path))
           (find_nodes (process_file ident ast_parse cleandoc read_text g path) ''file'') =
         map (render_file g) (find_nodes g ''file'') @
         [Inr (out_path path, render_text path (file_items ast_parse cleandoc path (read_text path)))]"
proof -
  have "render_file (process_file ident ast_parse cleandoc read_text g path) f = render_file g f"
    if "f \<in> set (find_nodes g ''file'')" for f
  proof -
    from that have "f \<in> set (nodes g)" by (simp add: find_nodes_def)
    then show ?thesis by (intro render_file_cong linked_docs_old assms)
  qed
  then show ?thesis
    by (simp add: find_nodes_process_file render_file_new [OF assms])
qed

lemma renders_paths_loop:
  assumes "inj ident"
  shows "ids_known ident g \<Longrightarrow>
    map (render_file (paths_loop ident ast_parse cleandoc read_text g paths))
      (find_nodes (paths_loop ident ast_parse cleandoc read_text g paths) ''file'') =
    map (render_file g) (find_nodes g ''file'') @
    map Inr (expected_writes ast_parse cleandoc read_text paths)"
proof (induction paths arbitrary: g)
  case Nil
  show ?case by (simp add: expected_writes_def)
next
  case (Cons path paths)
  have "ids_known ident (process_file ident ast_parse cleandoc read_text g path)"
    using Cons.prems by (rule ids_known_process_file)
  from Cons.IH [OF this] show ?case
    by (simp add: renders_process_file [OF assms Cons.prems] expected_writes_def)
qed

lemma render_loop_all:
  "map (render_file g) file_nodes = map Inr ws \<Longrightarrow>
   render_loop g written file_nodes = Inr (written @ ws)"
proof (induction file_nodes arbitrary: written ws)
  case Nil
  then show ?case by simp
next
  case (Cons f file_nodes)
  then obtain w ws' where ws: "ws = w # ws'" "render_file g f = Inr w"
    "map (render_file g) file_nodes = map Inr ws'"
    by (cases ws) auto
  show ?case using Cons.IH [OF ws(3), of "written @ [w]"] ws(1,2) by simp
qed

lemma main_eq:
  assumes "inj ident"
  shows "main ident ast_parse cleandoc read_text walk =
         Inr (expected_writes ast_parse cleandoc read_text (walk_loop [] walk))"
proof (cases "walk_loop [] walk = []")
  case True
  then show ?thesis by (simp add: main_def expected_writes_def)
next
  case False
  let ?g = "build_graph ident ast_parse cleandoc read_text (walk_loop [] walk)"
  have "map (render_file ?g) (find_nodes ?g ''file'') =
    map Inr (expected_writes ast_parse cleandoc read_text (walk_loop [] walk))"
    unfolding build_graph_def
    by (subst renders_paths_loop [OF assms ids_known_empty]) (simp add: find_nodes_def)
  then have "render_loop ?g [] (find_nodes ?g ''file'') =
    Inr ([] @ expected_writes ast_parse cleandoc read_text (walk_loop [] walk))"
    by (rule render_loop_all)
  then show ?thesis using False by (simp add: main_def Let_def)
qed

section \<open>The invariant of the edges holds in every state\<close>

lemma graph_inv_add_node:
  "graph_inv g \<Longrightarrow> graph_inv (fst (add_node ident g t ps))"
  by (auto simp: graph_inv_def add_node_def Let_def list_all_iff)

lemma graph_inv_add_edge:
  "graph_inv g \<Longrightarrow> j_type src = ''doc'' \<Longrightarrow> src \<in> set (nodes g) \<Longrightarrow>
   j_type dst = ''file'' \<Longrightarrow> dst \<in> set (nodes g) \<Longrightarrow>
   graph_inv (fst (add_edge g ''for_file'' src dst))"
  by (auto simp: graph_inv_def add_edge_def Let_def list_all_iff)

lemma items_states_inv:
  "graph_inv g \<Longrightarrow> j_type f = ''file'' \<Longrightarrow> f \<in> set (nodes g) \<Longrightarrow>
   list_all graph_inv (items_states ident g f lang items)"
proof (induction items arbitrary: g)
  case Nil
  then show ?case by simp
next
  case (Cons it items)
  obtain title body where it: "it = (title, body)" by (cases it)
  let ?ps = "[(''title'', title), (''body'', if body \<noteq> [] then body else ''(no description)''),
    (''lang'', lang)]"
  let ?g1 = "fst (add_node ident g ''doc'' ?ps)"
  let ?d = "snd (add_node ident g ''doc'' ?ps)"
  let ?g2 = "fst (add_edge ?g1 ''for_file'' ?d f)"
  have g1: "graph_inv ?g1" using Cons.prems(1) by (rule graph_inv_add_node)
  have d: "j_type ?d = ''doc''" "?d \<in> set (nodes ?g1)" by (simp_all add: add_node_def Let_def)
  have f1: "f \<in> set (nodes ?g1)" using Cons.prems(3) by (simp add: add_node_def Let_def)
  have g2: "graph_inv ?g2" using g1 d Cons.prems(2) f1 by (rule graph_inv_add_edge)
  have f2: "f \<in> set (nodes ?g2)" using f1 by (simp add: add_edge_def Let_def)
  have "list_all graph_inv (items_states ident ?g2 f lang items)"
    using g2 Cons.prems(2) f2 by (rule Cons.IH)
  then show ?case using g1 g2 by (simp add: it case_prod_unfold Let_def)
qed

lemma file_states_inv:
  assumes "graph_inv g"
  shows "list_all graph_inv (file_states ident ast_parse cleandoc read_text g path)"
proof -
  let ?ps = "[(''path'', path), (''content'', read_text path)]"
  let ?g1 = "fst (add_node ident g ''file'' ?ps)"
  let ?f = "snd (add_node ident g ''file'' ?ps)"
  have g1: "graph_inv ?g1" using assms by (rule graph_inv_add_node)
  have f: "j_type ?f = ''file''" "?f \<in> set (nodes ?g1)" by (simp_all add: add_node_def Let_def)
  show ?thesis
    using g1 items_states_inv [OF g1 f]
    by (simp add: file_states_def case_prod_unfold Let_def)
qed

lemma items_states_last:
  "last (g # items_states ident g f lang items) = items_loop ident g f lang items"
  by (induction items arbitrary: g) (auto simp: case_prod_unfold Let_def)

lemma file_states_last:
  "last (file_states ident ast_parse cleandoc read_text g path) =
     process_file ident ast_parse cleandoc read_text g path"
  using items_states_last
  by (simp add: file_states_def process_file_def case_prod_unfold Let_def)

lemma file_states_not_Nil: "file_states ident ast_parse cleandoc read_text g path \<noteq> []"
  by (simp add: file_states_def case_prod_unfold Let_def)

lemma paths_states_inv:
  "graph_inv g \<Longrightarrow> list_all graph_inv (paths_states ident ast_parse cleandoc read_text g paths)"
proof (induction paths arbitrary: g)
  case Nil
  then show ?case by simp
next
  case (Cons path paths)
  have fs: "list_all graph_inv (file_states ident ast_parse cleandoc read_text g path)"
    using Cons.prems by (rule file_states_inv)
  then have "graph_inv (last (file_states ident ast_parse cleandoc read_text g path))"
    using file_states_not_Nil [of ident ast_parse cleandoc read_text g path]
    by (simp add: list_all_iff)
  then have "graph_inv (process_file ident ast_parse cleandoc read_text g path)"
    by (simp add: file_states_last)
  then show ?case using fs Cons.IH by simp
qed

lemma paths_states_last:
  "last (g # paths_states ident ast_parse cleandoc read_text g paths) =
     paths_loop ident ast_parse cleandoc read_text g paths"
proof (induction paths arbitrary: g)
  case Nil
  then show ?case by simp
next
  case (Cons path paths)
  show ?case
    using Cons.IH [of "process_file ident ast_parse cleandoc read_text g path"]
      file_states_not_Nil [of ident ast_parse cleandoc read_text g path]
      file_states_last [of ident ast_parse cleandoc read_text g path]
    by (auto simp: last_append split: if_splits)
qed

lemma graph_states_inv:
  "list_all graph_inv (graph_states ident ast_parse cleandoc read_text walk)"
  using paths_states_inv [of "\<lparr>nodes = [], edges = []\<rparr>"]
  by (simp add: graph_states_def graph_inv_def)

lemma graph_states_last:
  "last (graph_states ident ast_parse cleandoc read_text walk) =
     build_graph ident ast_parse cleandoc read_text (walk_loop [] walk)"
  using paths_states_last [of "\<lparr>nodes = [], edges = []\<rparr>"]
  by (simp add: graph_states_def build_graph_def)

section \<open>Linked docs and the files written\<close>

lemma file_items_not_Nil: "file_items ast_parse cleandoc path content \<noteq> []"
  by (simp add: file_items_def Let_def)

lemma linked_docs_grows:
  "linked_docs g f \<noteq> [] \<Longrightarrow> linked_docs (g\<lparr>nodes := ns, edges := edges g @ es\<rparr>) f \<noteq> []"
  by (simp add: linked_docs_def)

lemma every_file_linked_process_file:
  assumes "every_file_linked g"
  shows "every_file_linked (process_file ident ast_parse cleandoc read_text g path)"
proof -
  let ?n = "length (nodes g)"
  let ?items = "file_items ast_parse cleandoc path (read_text path)"
  let ?f = "file_node_of ident ?n path (read_text path)"
  let ?ds = "doc_nodes ident (file_lang path) (Suc ?n) ?items"
  let ?g' = "g\<lparr>nodes := nodes g @ ?f # ?ds, edges := edges g @ map (for_file_edge ?f) ?ds\<rparr>"
  have eq: "process_file ident ast_parse cleandoc read_text g path = ?g'"
    by (simp add: process_file_eq Let_def)
  have old: "linked_docs ?g' x \<noteq> []" if "x \<in> set (nodes g)" "j_type x = ''file''" for x
  proof -
    from assms that have "linked_docs g x \<noteq> []" by (simp add: every_file_linked_def list_all_iff)
    then show ?thesis by (rule linked_docs_grows)
  qed
  obtain d ds' where ds: "?ds = d # ds'"
    using file_items_not_Nil [of ast_parse cleandoc path "read_text path"]
    by (cases ?ds) (simp_all add: doc_nodes_Nil)
  have new: "linked_docs ?g' ?f \<noteq> []"
    unfolding ds by (simp add: linked_docs_def for_file_edge_def)
  have docs: "j_type x \<noteq> ''file''" if "x \<in> set ?ds" for x
    using doc_nodes_member [OF that] by simp
  show ?thesis
    unfolding eq every_file_linked_def list_all_iff
    using old new docs by auto
qed

lemma every_file_linked_paths_loop:
  "every_file_linked g \<Longrightarrow>
   every_file_linked (paths_loop ident ast_parse cleandoc read_text g paths)"
  by (induction paths arbitrary: g) (simp_all add: every_file_linked_process_file)

lemma every_file_linked_build_graph:
  "every_file_linked (build_graph ident ast_parse cleandoc read_text paths)"
  unfolding build_graph_def
  by (rule every_file_linked_paths_loop) (simp add: every_file_linked_def)

lemma write_all_eq: "write_all fs ws = fs ++ map_of (rev ws)"
proof (induction ws arbitrary: fs)
  case Nil
  show ?case by simp
next
  case (Cons w ws)
  obtain out t where w: "w = (out, t)" by (cases w)
  show ?case
    by (simp add: w Cons.IH) (rule ext, simp add: map_add_def split: option.splits)
qed

lemma write_all_twice: "write_all (write_all fs ws) ws = write_all fs ws"
  by (rule ext) (simp add: write_all_eq map_add_def split: option.splits)

lemma write_all_written:
  "out \<in> fst ` set ws \<Longrightarrow> write_all fs ws out = write_all fs' ws out"
proof -
  assume "out \<in> fst ` set ws"
  then have "out \<in> dom (map_of (rev ws))" by (simp add: dom_map_of_conv_image_fst)
  then show ?thesis by (auto simp: write_all_eq map_add_dom_app_simps)
qed

lemma write_all_dom: "dom (write_all fs ws) = dom fs \<union> fst ` set ws"
  by (auto simp: write_all_eq dom_map_of_conv_image_fst)

section \<open>The claims\<close>

subsection \<open>Choice of the extractor\<close>

lemma upper_case_name_enumerated:
  "enumerated ''MOD.PY'' \<and> endswith (lower ''MOD.PY'') ''.py'' \<and>
   path_suffix (path_join ''src'' ''MOD.PY'') = ''.PY''"
  by code_simp

lemma dot_py_name_enumerated:
  "enumerated ''.py'' \<and> endswith (lower ''.py'') ''.py'' \<and>
   path_suffix (path_join ''src'' ''.py'') = []"
  by code_simp

text \<open>
  C1. The claim: of the files the walk enumerates, those whose name ends in \<^verbatim>\<open>.py\<close>
  under the case-insensitive match of the walk get \<^verbatim>\<open>parse_python\<close>, the others the
  generic extractor. The program does otherwise: the walk lower-cases the name, the
  choice compares \<^verbatim>\<open>path.suffix\<close> with \<^verbatim>\<open>".py"\<close> as it is. The file \<^verbatim>\<open>src/MOD.PY\<close> is
  enumerated, its name ends in \<^verbatim>\<open>.py\<close> once lower-cased, and it is given to the generic
  extractor whatever its content; so is a file named \<^verbatim>\<open>.py\<close>, whose suffix is empty.
\<close>

theorem C1_upper_case_py_gets_generic_extractor:
  "enumerated ''MOD.PY'' \<and> endswith (lower ''MOD.PY'') ''.py'' \<and>
   extract_items ast_parse cleandoc (path_join ''src'' ''MOD.PY'') content =
     parse_generic_comments content \<and>
   enumerated ''.py'' \<and> endswith (lower ''.py'') ''.py'' \<and>
   extract_items ast_parse cleandoc (path_join ''src'' ''.py'') content =
     parse_generic_comments content"
  using upper_case_name_enumerated dot_py_name_enumerated
  by (simp add: extract_items_def)

subsection \<open>Output files\<close>

lemma out_path_eq_iff: "out_path p = out_path q \<longleftrightarrow> path_name p = path_name q"
  by (simp add: out_path_def)

lemma expected_writes_paths:
  "map fst (expected_writes ast_parse cleandoc read_text file_paths) =
     map (\<lambda>p. ''docs/'' @ path_name p @ ''.md'') file_paths"
  by (simp add: expected_writes_def out_path_def)

text \<open>
  C2, as stated, fails: two files \<^verbatim>\<open>x.py\<close> in the directories \<^verbatim>\<open>src/a\<close> and \<^verbatim>\<open>src/b\<close> are
  two discovered source files, and both are written to \<^verbatim>\<open>docs/x.py.md\<close>; the second
  text replaces the first, and one output file exists for two source files.
\<close>

theorem C2_same_basename_counterexample:
  "walk_loop [] [(''src/a'', [''x.py'']), (''src/b'', [''x.py''])] =
     [''src/a/x.py'', ''src/b/x.py''] \<and>
   main (\<lambda>n. n) (\<lambda>c. None) inspect_cleandoc (\<lambda>p. [])
       [(''src/a'', [''x.py'']), (''src/b'', [''x.py''])] =
     Inr [(''docs/x.py.md'',
           ''# x.py\<newline>\<newline>_path_: `src/a/x.py`\<newline>\<newline>## Summary\<newline>\<newline>No docstrings or comment blocks found in x.py\<newline>''),
          (''docs/x.py.md'',
           ''# x.py\<newline>\<newline>_path_: `src/b/x.py`\<newline>\<newline>## Summary\<newline>\<newline>No docstrings or comment blocks found in x.py\<newline>'')]"
  by code_simp

text \<open>
  C2, amended. In every run the pipeline calls \<^verbatim>\<open>write_text\<close> once for each discovered
  source file, in the order of the enumeration, on \<^verbatim>\<open>docs/<name>.md\<close> with \<^verbatim>\<open><name>\<close> the
  file's base name, extension included. Two discovered files are written to two distinct
  output files exactly when their base names differ.
\<close>

theorem C2_one_write_per_file:
  assumes "inj ident"
  shows "main ident ast_parse cleandoc read_text walk =
           Inr (expected_writes ast_parse cleandoc read_text (walk_loop [] walk)) \<and>
         map fst (expected_writes ast_parse cleandoc read_text (walk_loop [] walk)) =
           map (\<lambda>p. ''docs/'' @ path_name p @ ''.md'') (walk_loop [] walk) \<and>
         (out_path p = out_path q) = (path_name p = path_name q)"
  using main_eq [OF assms] expected_writes_paths out_path_eq_iff by simp

theorem C2_one_write_per_file_witness:
  "map fst (case main (\<lambda>n. n) (\<lambda>c. None) inspect_cleandoc (\<lambda>p. [])
              [(''src'', [''a.py'', ''notes.txt'', ''b.js''])] of
            Inl e \<Rightarrow> [] | Inr ws \<Rightarrow> ws) =
     [''docs/a.py.md'', ''docs/b.js.md'']"
proof -
  have i: "inj (\<lambda>n::nat. n)" by simp
  have w: "map (\<lambda>p. ''docs/'' @ path_name p @ ''.md'')
      (walk_loop [] [(''src'', [''a.py'', ''notes.txt'', ''b.js''])]) =
    [''docs/a.py.md'', ''docs/b.js.md'']"
    by code_simp
  show ?thesis
    using C2_one_write_per_file [OF i, where ast_parse = "\<lambda>c. None"
        and cleandoc = inspect_cleandoc and read_text = "\<lambda>p. []"
        and walk = "[(''src'', [''a.py'', ''notes.txt'', ''b.js''])]"] w
    by simp
qed

subsection \<open>Parse failure\<close>

text \<open>
  C4. Where \<^verbatim>\<open>ast.parse\<close> raises on a text, \<^verbatim>\<open>parse_python\<close> returns what
  \<^verbatim>\<open>parse_generic_comments\<close> returns on that text. The file still has items (its own, or
  the placeholder), and the run goes on to the end: \<^verbatim>\<open>main\<close> returns no exception and has
  written the file's document.
\<close>

theorem C4_parse_failure_falls_back:
  assumes "ast_parse content = None"
  shows "parse_python ast_parse cleandoc content = parse_generic_comments content \<and>
         file_items ast_parse cleandoc path content \<noteq> [] \<and>
         (inj ident \<and> read_text path = content \<and> path \<in> set (walk_loop [] walk) \<longrightarrow>
            main ident ast_parse cleandoc read_text walk =
              Inr (expected_writes ast_parse cleandoc read_text (walk_loop [] walk)) \<and>
            (out_path path, render_text path (file_items ast_parse cleandoc path content))
              \<in> set (expected_writes ast_parse cleandoc read_text (walk_loop [] walk)))"
proof -
  have "parse_python ast_parse cleandoc content = parse_generic_comments content"
    using assms by (simp add: parse_python_def)
  moreover have "file_items ast_parse cleandoc path content \<noteq> []"
    by (rule file_items_not_Nil)
  moreover have "(out_path path, render_text path (file_items ast_parse cleandoc path content))
      \<in> set (expected_writes ast_parse cleandoc read_text (walk_loop [] walk))"
    if "read_text path = content" "path \<in> set (walk_loop [] walk)"
    using that by (auto simp: expected_writes_def)
  ultimately show ?thesis using main_eq by blast
qed

theorem C4_parse_failure_falls_back_witness:
  "parse_python (\<lambda>c. None) inspect_cleandoc ''def f(:\<newline># half a file'' =
     [(''comment_block'', ''half a file'')] \<and>
   main (\<lambda>n. n) (\<lambda>c. None) inspect_cleandoc (\<lambda>p. ''def f(:\<newline># half a file'')
       [(''src'', [''bad.py''])] =
     Inr [(''docs/bad.py.md'',
           ''# bad.py\<newline>\<newline>_path_: `src/bad.py`\<newline>\<newline>## comment_block\<newline>\<newline>half a file\<newline>'')]"
proof -
  have n: "(\<lambda>c. None :: py_module option) ''def f(:\<newline># half a file'' = None" by simp
  have g: "parse_generic_comments ''def f(:\<newline># half a file'' = [(''comment_block'', ''half a file'')]"
    by code_simp
  have i: "inj (\<lambda>n::nat. n) \<and> (\<lambda>p. ''def f(:\<newline># half a file'') ''src/bad.py'' = ''def f(:\<newline># half a file'' \<and>
      ''src/bad.py'' \<in> set (walk_loop [] [(''src'', [''bad.py''])])"
    by (simp add: enumerated_def extensions_def endswith_def lower_def lower_char_def path_join_def)
  have e: "expected_writes (\<lambda>c. None) inspect_cleandoc (\<lambda>p. ''def f(:\<newline># half a file'')
      (walk_loop [] [(''src'', [''bad.py''])]) =
    [(''docs/bad.py.md'',
      ''# bad.py\<newline>\<newline>_path_: `src/bad.py`\<newline>\<newline>## comment_block\<newline>\<newline>half a file\<newline>'')]"
    by code_simp
  show ?thesis
    using C4_parse_failure_falls_back [OF n, where cleandoc = inspect_cleandoc
        and path = "''src/bad.py''" and ident = "\<lambda>n. n"
        and read_text = "\<lambda>p. ''def f(:\<newline># half a file''"
        and walk = "[(''src'', [''bad.py''])]"] g i e
    by simp
qed

subsection \<open>Classes, and the order of the items\<close>

lemma class_example:
  "parse_module inspect_cleandoc
     (Module [ClassDef ''C'' [FunctionDef ''m1'' [Expr (Constant_str ''returns 1'')],
                              FunctionDef ''m2'' [Other_stmt []]]]) =
   [(''class C'', ''Methods:\<newline>- m1(): returns 1\<newline>- m2(): (no doc)'')]"
  by code_simp

lemma parse_python_parsed:
  "ast_parse content = Some (Module body) \<Longrightarrow>
   parse_python ast_parse cleandoc content =
     module_item cleandoc body @ concat (map (def_items cleandoc) body)"
  by (simp add: parse_python_def parse_module_eq del: parse_module.simps)

text \<open>
  C5. For a parsable text with a top-level class, \<^verbatim>\<open>parse_python\<close> emits, at the place
  of the class among the items, one item titled \<^verbatim>\<open>class <name>\<close>. Its body is the trimmed
  docstring of the class (empty if absent), followed, when the class body defines a
  method, by a blank line and a \<^verbatim>\<open>Methods:\<close> section with one line
  \<^verbatim>\<open>- <name>(): <doc or '(no doc)'>\<close> per method in the order of declaration; with no
  docstring and no method the body is \<^verbatim>\<open>(no doc)\<close>. The class with the methods \<^verbatim>\<open>m1\<close>
  (docstring \<^verbatim>\<open>returns 1\<close>) and \<^verbatim>\<open>m2\<close> (none) gives the two lines in that order.
\<close>

theorem C5_class_item_with_methods:
  assumes "ast_parse content = Some (Module (pre @ ClassDef name cbody # post))"
  shows "parse_python ast_parse cleandoc content =
           module_item cleandoc (pre @ ClassDef name cbody # post) @
           concat (map (def_items cleandoc) pre) @
           [(''class '' @ name,
             class_body (strip (docstring_or_empty cleandoc cbody))
               (class_methods cleandoc cbody))] @
           concat (map (def_items cleandoc) post) \<and>
         parse_module inspect_cleandoc
           (Module [ClassDef ''C'' [FunctionDef ''m1'' [Expr (Constant_str ''returns 1'')],
                                    FunctionDef ''m2'' [Other_stmt []]]]) =
           [(''class C'', ''Methods:\<newline>- m1(): returns 1\<newline>- m2(): (no doc)'')]"
  using assms class_example
    parse_python_parsed [of ast_parse content "pre @ ClassDef name cbody # post" cleandoc]
  by simp

theorem C5_class_item_with_methods_witness:
  "parse_python
     (\<lambda>c. Some (Module [FunctionDef ''f'' [],
                        ClassDef ''K'' [Expr (Constant_str '' A class. ''),
                                        AsyncFunctionDef ''run'' [Expr (Constant_str ''Runs.'')],
                                        Other_stmt [],
                                        FunctionDef ''stop'' []]]))
     inspect_cleandoc ''the text of the file'' =
   [(''def f()'', []),
    (''class K'', ''A class.\<newline>\<newline>Methods:\<newline>- run(): Runs.\<newline>- stop(): (no doc)'')]"
proof -
  let ?cbody = "[Expr (Constant_str '' A class. ''),
    AsyncFunctionDef ''run'' [Expr (Constant_str ''Runs.'')], Other_stmt [], FunctionDef ''stop'' []]"
  let ?parse = "\<lambda>c::string. Some (Module [FunctionDef ''f'' [], ClassDef ''K'' ?cbody])"
  have p: "?parse ''the text of the file'' =
      Some (Module ([FunctionDef ''f'' []] @ ClassDef ''K'' ?cbody # []))"
    by simp
  have m: "module_item inspect_cleandoc ([FunctionDef ''f'' []] @ ClassDef ''K'' ?cbody # []) = []"
    by code_simp
  have f: "concat (map (def_items inspect_cleandoc) [FunctionDef ''f'' []]) = [(''def f()'', [])]"
    by code_simp
  have b: "class_body (strip (docstring_or_empty inspect_cleandoc ?cbody))
      (class_methods inspect_cleandoc ?cbody) =
    ''A class.\<newline>\<newline>Methods:\<newline>- run(): Runs.\<newline>- stop(): (no doc)''"
    by code_simp
  show ?thesis
    using p m f b
      C5_class_item_with_methods [where ast_parse = ?parse
        and content = "''the text of the file''" and pre = "[FunctionDef ''f'' []]"
        and name = "''K''" and cbody = ?cbody and post = "[]"
        and cleandoc = inspect_cleandoc]
    by simp
qed

lemma docstring_first_statement:
  "docstring_or_empty cleandoc (s # rest) = docstring_or_empty cleandoc [s]"
proof (cases s)
  case (Expr e)
  then show ?thesis by (cases e) (simp_all add: docstring_or_empty_def)
qed (simp_all add: docstring_or_empty_def)

text \<open>
  C6, as stated, fails on the module item: a module whose docstring is the empty string
  (or cleans to it) has a docstring, and \<^verbatim>\<open>parse_python\<close> emits no \<^verbatim>\<open>module\<close> item for
  it, since \<^verbatim>\<open>if module_doc:\<close> tests the cleaned string for emptiness.
\<close>

theorem C6_empty_module_docstring_counterexample:
  "get_docstring inspect_cleandoc [Expr (Constant_str [])] = Some [] \<and>
   parse_python (\<lambda>c. Some (Module [Expr (Constant_str [])])) inspect_cleandoc
     [CHR 0x22, CHR 0x22] = [] \<and>
   stated_module_item inspect_cleandoc [Expr (Constant_str [])] @
     concat (map (def_items inspect_cleandoc) [Expr (Constant_str [])]) = [(''module'', [])]"
  by code_simp

text \<open>
  C6, amended. For every parsable text the items of \<^verbatim>\<open>parse_python\<close> are: the item
  titled \<^verbatim>\<open>module\<close> first if the module has a docstring that is not empty once cleaned,
  then one item per top-level function, async function and class, in the order of their
  declaration. A function contributes one item that depends on its name and its first
  statement only, so definitions nested in it are not visited; every other top-level
  statement, whatever is nested in it, contributes none.
\<close>

theorem C6_items_in_declaration_order:
  assumes "ast_parse content = Some (Module body)"
  shows "parse_python ast_parse cleandoc content =
           module_item cleandoc body @ concat (map (def_items cleandoc) body) \<and>
         def_items cleandoc (FunctionDef name (s # rest)) =
           def_items cleandoc (FunctionDef name [s]) \<and>
         def_items cleandoc (AsyncFunctionDef name (s # rest)) =
           def_items cleandoc (AsyncFunctionDef name [s]) \<and>
         def_items cleandoc (Other_stmt nested) = [] \<and>
         def_items cleandoc (Expr e) = []"
  using assms parse_python_parsed [of ast_parse content body cleandoc]
    docstring_first_statement [of cleandoc s rest]
  by simp

theorem C6_items_in_declaration_order_witness:
  "parse_python
     (\<lambda>c. Some (Module [Expr (Constant_str ''Tools.''),
                        ClassDef ''K'' [],
                        Other_stmt [FunctionDef ''hidden'' []],
                        FunctionDef ''f'' [Expr (Constant_str ''Does X.''), FunctionDef ''inner'' []],
                        AsyncFunctionDef ''g'' []]))
     inspect_cleandoc ''the text of the file'' =
   [(''module'', ''Tools.''), (''class K'', ''(no doc)''), (''def f()'', ''Does X.''),
    (''async def g()'', [])]"
proof -
  let ?body = "[Expr (Constant_str ''Tools.''), ClassDef ''K'' [],
    Other_stmt [FunctionDef ''hidden'' []],
    FunctionDef ''f'' [Expr (Constant_str ''Does X.''), FunctionDef ''inner'' []],
    AsyncFunctionDef ''g'' []]"
  have p: "(\<lambda>c::string. Some (Module ?body)) ''the text of the file'' = Some (Module ?body)"
    by simp
  have e: "module_item inspect_cleandoc ?body @ concat (map (def_items inspect_cleandoc) ?body) =
    [(''module'', ''Tools.''), (''class K'', ''(no doc)''), (''def f()'', ''Does X.''),
     (''async def g()'', [])]"
    by code_simp
  have t: "parse_python (\<lambda>c. Some (Module ?body)) inspect_cleandoc ''the text of the file'' =
    module_item inspect_cleandoc ?body @ concat (map (def_items inspect_cleandoc) ?body)"
    by (rule C6_items_in_declaration_order [where ast_parse = "\<lambda>c. Some (Module ?body)"
        and content = "''the text of the file''" and body = ?body
        and cleandoc = inspect_cleandoc, OF p, THEN conjunct1])
  show ?thesis by (simp only: t e)
qed

subsection \<open>The placeholder\<close>

lemma render_text_placeholder:
  "render_text path [(''Summary'', ''No docstrings or comment blocks found in '' @ path_name path)] =
     ''# '' @ path_name path @ ''\<newline>\<newline>_path_: `'' @ path @
     ''`\<newline>\<newline>## Summary\<newline>\<newline>No docstrings or comment blocks found in '' @ path_name path @ ''\<newline>''"
  by (simp add: render_text_def doc_lines_def doc_body_def)

text \<open>
  C7. For every discovered file whose extraction yields no item, the pipeline makes the
  one item titled \<^verbatim>\<open>Summary\<close> with the body \<^verbatim>\<open>No docstrings or comment blocks found in
  <filename>\<close>, and the markdown rendered for that file is its heading, its path line
  and that body under the subheading \<^verbatim>\<open>## Summary\<close>.
\<close>

theorem C7_placeholder_for_empty_extraction:
  assumes "inj ident"
    and "path \<in> set (walk_loop [] walk)"
    and "extract_items ast_parse cleandoc path (read_text path) = []"
  shows "file_items ast_parse cleandoc path (read_text path) =
           [(''Summary'', ''No docstrings or comment blocks found in '' @ path_name path)] \<and>
         main ident ast_parse cleandoc read_text walk =
           Inr (expected_writes ast_parse cleandoc read_text (walk_loop [] walk)) \<and>
         (''docs/'' @ path_name path @ ''.md'',
          ''# '' @ path_name path @ ''\<newline>\<newline>_path_: `'' @ path @
          ''`\<newline>\<newline>## Summary\<newline>\<newline>No docstrings or comment blocks found in '' @ path_name path @ ''\<newline>'')
           \<in> set (expected_writes ast_parse cleandoc read_text (walk_loop [] walk))"
proof -
  have items: "file_items ast_parse cleandoc path (read_text path) =
      [(''Summary'', ''No docstrings or comment blocks found in '' @ path_name path)]"
    using assms(3) by (simp add: file_items_def)
  have "(out_path path, render_text path (file_items ast_parse cleandoc path (read_text path)))
      \<in> set (expected_writes ast_parse cleandoc read_text (walk_loop [] walk))"
    using assms(2) by (auto simp: expected_writes_def)
  then have written: "(''docs/'' @ path_name path @ ''.md'',
      ''# '' @ path_name path @ ''\<newline>\<newline>_path_: `'' @ path @
      ''`\<newline>\<newline>## Summary\<newline>\<newline>No docstrings or comment blocks found in '' @ path_name path @ ''\<newline>'')
      \<in> set (expected_writes ast_parse cleandoc read_text (walk_loop [] walk))"
    unfolding items render_text_placeholder out_path_def .
  show ?thesis
    using items main_eq [OF assms(1)] written by (intro conjI)
qed

theorem C7_placeholder_for_empty_extraction_witness:
  "main (\<lambda>n. n) (\<lambda>c. None) inspect_cleandoc (\<lambda>p. ''int x;'') [(''src'', [''empty.c''])] =
     Inr [(''docs/empty.c.md'',
           ''# empty.c\<newline>\<newline>_path_: `src/empty.c`\<newline>\<newline>## Summary\<newline>\<newline>No docstrings or comment blocks found in empty.c\<newline>'')]"
proof -
  have i: "inj (\<lambda>n::nat. n)" by simp
  have p: "''src/empty.c'' \<in> set (walk_loop [] [(''src'', [''empty.c''])])"
    by code_simp
  have x: "extract_items (\<lambda>c. None) inspect_cleandoc ''src/empty.c''
      ((\<lambda>p. ''int x;'') ''src/empty.c'') = []"
    by code_simp
  have e: "expected_writes (\<lambda>c. None) inspect_cleandoc (\<lambda>p. ''int x;'')
      (walk_loop [] [(''src'', [''empty.c''])]) =
    [(''docs/empty.c.md'',
      ''# empty.c\<newline>\<newline>_path_: `src/empty.c`\<newline>\<newline>## Summary\<newline>\<newline>No docstrings or comment blocks found in empty.c\<newline>'')]"
    by code_simp
  have m: "main (\<lambda>n. n) (\<lambda>c. None) inspect_cleandoc (\<lambda>p. ''int x;'') [(''src'', [''empty.c''])] =
      Inr (expected_writes (\<lambda>c. None) inspect_cleandoc (\<lambda>p. ''int x;'')
        (walk_loop [] [(''src'', [''empty.c''])]))"
    by (rule C7_placeholder_for_empty_extraction [OF i p x, THEN conjunct2, THEN conjunct1])
  show ?thesis by (simp only: m e)
qed

subsection \<open>The edges\<close>

text \<open>
  C8. In every state the graph is in during a run of the pipeline, before and after each
  call of \<^verbatim>\<open>add_node\<close> and \<^verbatim>\<open>add_edge\<close>, every edge has the type \<^verbatim>\<open>for_file\<close>, its source
  is a node of type \<^verbatim>\<open>doc\<close> in the node list, and its destination is a node of type
  \<^verbatim>\<open>file\<close> in the node list. The graph that is rendered is the last of these states.
\<close>

theorem C8_edges_link_doc_to_file:
  "(g \<in> set (graph_states ident ast_parse cleandoc read_text walk) \<and> e \<in> set (edges g) \<longrightarrow>
      edge_j_type e = ''for_file'' \<and>
      j_type (source e) = ''doc'' \<and> source e \<in> set (nodes g) \<and>
      j_type (dest e) = ''file'' \<and> dest e \<in> set (nodes g)) \<and>
   build_graph ident ast_parse cleandoc read_text (walk_loop [] walk)
     \<in> set (graph_states ident ast_parse cleandoc read_text walk)"
proof -
  have "graph_inv g" if "g \<in> set (graph_states ident ast_parse cleandoc read_text walk)"
    using graph_states_inv [of ident ast_parse cleandoc read_text walk] that
    by (simp add: list_all_iff)
  moreover have "graph_states ident ast_parse cleandoc read_text walk \<noteq> []"
    by (simp add: graph_states_def)
  then have "last (graph_states ident ast_parse cleandoc read_text walk)
      \<in> set (graph_states ident ast_parse cleandoc read_text walk)"
    by (rule last_in_set)
  ultimately show ?thesis
    by (auto simp: graph_states_last graph_inv_def list_all_iff)
qed

theorem C8_edges_link_doc_to_file_witness:
  "edges (build_graph (\<lambda>n. n) (\<lambda>c. None) inspect_cleandoc (\<lambda>p. ''// a note'')
            (walk_loop [] [(''src'', [''a.js''])])) =
     [\<lparr>edge_j_type = ''for_file'',
       source = \<lparr>j_type = ''doc'',
                 props = [(''title'', ''comment_block''), (''body'', ''a note''), (''lang'', ''js'')],
                 node_id = 1\<rparr>,
       dest = \<lparr>j_type = ''file'',
               props = [(''path'', ''src/a.js''), (''content'', ''// a note'')],
               node_id = 0\<rparr>\<rparr>] \<and>
   j_type (source (hd (edges (build_graph (\<lambda>n. n) (\<lambda>c. None) inspect_cleandoc (\<lambda>p. ''// a note'')
            (walk_loop [] [(''src'', [''a.js''])]))))) = ''doc'' \<and>
   source (hd (edges (build_graph (\<lambda>n. n) (\<lambda>c. None) inspect_cleandoc (\<lambda>p. ''// a note'')
            (walk_loop [] [(''src'', [''a.js''])]))))
     \<in> set (nodes (build_graph (\<lambda>n. n) (\<lambda>c. None) inspect_cleandoc (\<lambda>p. ''// a note'')
            (walk_loop [] [(''src'', [''a.js''])])))"
proof -
  let ?g = "build_graph (\<lambda>n. n) (\<lambda>c. None) inspect_cleandoc (\<lambda>p. ''// a note'')
    (walk_loop [] [(''src'', [''a.js''])])"
  have e: "edges ?g =
     [\<lparr>edge_j_type = ''for_file'',
       source = \<lparr>j_type = ''doc'',
                 props = [(''title'', ''comment_block''), (''body'', ''a note''), (''lang'', ''js'')],
                 node_id = 1\<rparr>,
       dest = \<lparr>j_type = ''file'',
               props = [(''path'', ''src/a.js''), (''content'', ''// a note'')],
               node_id = 0\<rparr>\<rparr>]"
    by code_simp
  then have h: "hd (edges ?g) \<in> set (edges ?g)" by simp
  have s: "?g \<in> set (graph_states (\<lambda>n. n) (\<lambda>c. None) inspect_cleandoc (\<lambda>p. ''// a note'')
    [(''src'', [''a.js''])])"
    by (rule C8_edges_link_doc_to_file [THEN conjunct2])
  have "j_type (source (hd (edges ?g))) = ''doc'' \<and> source (hd (edges ?g)) \<in> set (nodes ?g)"
    using C8_edges_link_doc_to_file [where g = ?g and e = "hd (edges ?g)" and ident = "\<lambda>n. n"
        and ast_parse = "\<lambda>c. None" and cleandoc = inspect_cleandoc
        and read_text = "\<lambda>p. ''// a note''" and walk = "[(''src'', [''a.js''])]",
        THEN conjunct1] s h
    by blast
  then show ?thesis using e by blast
qed

subsection \<open>Determinism\<close>

text \<open>
  C9. The markdown written depends on the enumerated paths and the texts read, and on
  nothing else: two runs over the same input, whatever ids their nodes get, make the
  same calls of \<^verbatim>\<open>write_text\<close>. A file written is replaced, so its content after a run
  does not depend on the output directory before the run, and a second run leaves the
  output directory as the first run left it.
\<close>

theorem C9_output_is_deterministic:
  assumes "inj ident" and "inj ident'"
  shows "main ident ast_parse cleandoc read_text walk =
           Inr (expected_writes ast_parse cleandoc read_text (walk_loop [] walk)) \<and>
         main ident' ast_parse cleandoc read_text walk =
           Inr (expected_writes ast_parse cleandoc read_text (walk_loop [] walk)) \<and>
         write_all
           (write_all fs (expected_writes ast_parse cleandoc read_text (walk_loop [] walk)))
           (expected_writes ast_parse cleandoc read_text (walk_loop [] walk)) =
           write_all fs (expected_writes ast_parse cleandoc read_text (walk_loop [] walk)) \<and>
         (out \<in> fst ` set (expected_writes ast_parse cleandoc read_text (walk_loop [] walk)) \<longrightarrow>
            write_all fs (expected_writes ast_parse cleandoc read_text (walk_loop [] walk)) out =
            write_all fs' (expected_writes ast_parse cleandoc read_text (walk_loop [] walk)) out)"
  using main_eq [OF assms(1)] main_eq [OF assms(2)] write_all_twice write_all_written
  by blast

theorem C9_output_is_deterministic_witness:
  "main (\<lambda>n. n) (\<lambda>c. None) inspect_cleandoc (\<lambda>p. ''# a note'') [(''src'', [''a.py''])] =
     main (\<lambda>n. 2 * n + 5) (\<lambda>c. None) inspect_cleandoc (\<lambda>p. ''# a note'') [(''src'', [''a.py''])] \<and>
   write_all Map.empty
     (expected_writes (\<lambda>c. None) inspect_cleandoc (\<lambda>p. ''# a note'')
        (walk_loop [] [(''src'', [''a.py''])])) ''docs/a.py.md'' =
   write_all [''docs/a.py.md'' \<mapsto> ''left from an earlier run'']
     (expected_writes (\<lambda>c. None) inspect_cleandoc (\<lambda>p. ''# a note'')
        (walk_loop [] [(''src'', [''a.py''])])) ''docs/a.py.md''"
proof -
  have i: "inj (\<lambda>n::nat. n)" by simp
  have j: "inj (\<lambda>n::nat. 2 * n + 5)" by (simp add: inj_def)
  have o: "''docs/a.py.md'' \<in> fst ` set (expected_writes (\<lambda>c. None) inspect_cleandoc
      (\<lambda>p. ''# a note'') (walk_loop [] [(''src'', [''a.py''])]))"
  proof -
    have "map fst (expected_writes (\<lambda>c. None) inspect_cleandoc (\<lambda>p. ''# a note'')
        (walk_loop [] [(''src'', [''a.py''])])) = [''docs/a.py.md'']"
      by code_simp
    then have "set (map fst (expected_writes (\<lambda>c. None) inspect_cleandoc (\<lambda>p. ''# a note'')
        (walk_loop [] [(''src'', [''a.py''])]))) = {''docs/a.py.md''}"
      by simp
    then show ?thesis by (simp only: set_map) simp
  qed
  show ?thesis
    using C9_output_is_deterministic [OF i j, where ast_parse = "\<lambda>c. None"
        and cleandoc = inspect_cleandoc and read_text = "\<lambda>p. ''# a note''"
        and walk = "[(''src'', [''a.py''])]" and fs = Map.empty
        and fs' = "[''docs/a.py.md'' \<mapsto> ''left from an earlier run'']"
        and out = "''docs/a.py.md''"] o
    by (simp only:)
qed

subsection \<open>Linked docs\<close>

lemma render_text_items:
  "items \<noteq> [] \<Longrightarrow>
   render_text path items =
     join [NL] ([''# '' @ path_name path @ [NL], ''_path_: `'' @ path @ ''`'' @ [NL]] @
                concat (map doc_lines items))"
  by (simp add: render_text_def)

text \<open>
  C10. When the files are rendered, every file node of the graph has a for_file edge
  to it, because every file has an item, its own or the placeholder. So the list of
  linked docs is never empty, the branch that writes \<^verbatim>\<open>No extracted docs found.\<close> is not
  taken, and each text written is the heading, the path line and the lines of the
  file's items.
\<close>

theorem C10_every_file_node_has_docs:
  "(file_node \<in> set (find_nodes
        (build_graph ident ast_parse cleandoc read_text (walk_loop [] walk)) ''file'') \<longrightarrow>
      linked_docs (build_graph ident ast_parse cleandoc read_text (walk_loop [] walk)) file_node
        \<noteq> []) \<and>
   (inj ident \<longrightarrow>
      main ident ast_parse cleandoc read_text walk =
        Inr (map (\<lambda>p. (out_path p,
                        join [NL]
                          ([''# '' @ path_name p @ [NL], ''_path_: `'' @ p @ ''`'' @ [NL]] @
                           concat (map doc_lines
                             (file_items ast_parse cleandoc p (read_text p))))))
              (walk_loop [] walk)))"
proof -
  have "linked_docs (build_graph ident ast_parse cleandoc read_text (walk_loop [] walk)) file_node
      \<noteq> []"
    if "file_node \<in> set (find_nodes
      (build_graph ident ast_parse cleandoc read_text (walk_loop [] walk)) ''file'')"
    using that
      every_file_linked_build_graph [of ident ast_parse cleandoc read_text "walk_loop [] walk"]
    by (simp add: every_file_linked_def list_all_iff find_nodes_def)
  moreover have "main ident ast_parse cleandoc read_text walk =
      Inr (map (\<lambda>p. (out_path p,
                      join [NL]
                        ([''# '' @ path_name p @ [NL], ''_path_: `'' @ p @ ''`'' @ [NL]] @
                         concat (map doc_lines
                           (file_items ast_parse cleandoc p (read_text p))))))
            (walk_loop [] walk))"
    if "inj ident"
    using main_eq [OF that]
    by (simp add: expected_writes_def render_text_items file_items_not_Nil)
  ultimately show ?thesis by blast
qed

theorem C10_every_file_node_has_docs_witness:
  "find_nodes (build_graph (\<lambda>n. n) (\<lambda>c. None) inspect_cleandoc (\<lambda>p. ''int x;'')
      (walk_loop [] [(''src'', [''empty.c''])])) ''file'' =
     [\<lparr>j_type = ''file'', props = [(''path'', ''src/empty.c''), (''content'', ''int x;'')],
       node_id = 0\<rparr>] \<and>
   linked_docs (build_graph (\<lambda>n. n) (\<lambda>c. None) inspect_cleandoc (\<lambda>p. ''int x;'')
      (walk_loop [] [(''src'', [''empty.c''])]))
     \<lparr>j_type = ''file'', props = [(''path'', ''src/empty.c''), (''content'', ''int x;'')],
      node_id = 0\<rparr> \<noteq> []"
proof -
  let ?g = "build_graph (\<lambda>n. n) (\<lambda>c. None) inspect_cleandoc (\<lambda>p. ''int x;'')
    (walk_loop [] [(''src'', [''empty.c''])])"
  let ?f = "\<lparr>j_type = ''file'', props = [(''path'', ''src/empty.c''), (''content'', ''int x;'')],
    node_id = 0\<rparr>"
  have n: "find_nodes ?g ''file'' = [?f]" by code_simp
  then have "?f \<in> set (find_nodes ?g ''file'')" by simp
  then have "linked_docs ?g ?f \<noteq> []"
    using C10_every_file_node_has_docs [where file_node = ?f and ident = "\<lambda>n. n"
        and ast_parse = "\<lambda>c. None" and cleandoc = inspect_cleandoc
        and read_text = "\<lambda>p. ''int x;''" and walk = "[(''src'', [''empty.c''])]",
        THEN conjunct1]
    by blast
  then show ?thesis using n by blast
qed

end
